theory Spec2Isabelle
  imports Main "HOL-Library.Product_Lexorder" "HOL-Library.List_Lexorder" "HOL-Library.Char_ord"
begin

section \<open>Strings as the converter sees them\<close>

text \<open>
  The converter \<^verbatim>\<open>page2tei.py\<close> works on Python strings. A character of the model is a
  \<^typ>\<open>char\<close>, standing for a code point below 256; the character classes below are the
  ones Python uses on that range.
\<close>

definition is_space :: "char \<Rightarrow> bool" where
  \<comment> \<open>\<^verbatim>\<open>str.isspace\<close>, which both \<^verbatim>\<open>str.strip()\<close> and the pattern \<^verbatim>\<open>\s\<close> use\<close>
  "is_space c = (let n = (of_char c :: nat) in
     (9 \<le> n \<and> n \<le> 13) \<or> (28 \<le> n \<and> n \<le> 32) \<or> n = 133 \<or> n = 160)"

definition is_punct :: "char \<Rightarrow> bool" where
  \<comment> \<open>membership in \<^verbatim>\<open>string.punctuation\<close>: the 32 printable ASCII marks\<close>
  "is_punct c = (let n = (of_char c :: nat) in
     (33 \<le> n \<and> n \<le> 47) \<or> (58 \<le> n \<and> n \<le> 64) \<or> (91 \<le> n \<and> n \<le> 96) \<or> (123 \<le> n \<and> n \<le> 126))"

definition is_word :: "char \<Rightarrow> bool" where
  \<comment> \<open>the pattern \<^verbatim>\<open>\w\<close>: alphanumeric or underscore\<close>
  "is_word c = (let n = (of_char c :: nat) in
     (48 \<le> n \<and> n \<le> 57) \<or> (65 \<le> n \<and> n \<le> 90) \<or> n = 95 \<or> (97 \<le> n \<and> n \<le> 122)
     \<or> n = 170 \<or> n = 178 \<or> n = 179 \<or> n = 181 \<or> n = 185 \<or> n = 186
     \<or> (188 \<le> n \<and> n \<le> 190) \<or> (192 \<le> n \<and> n \<le> 214)
     \<or> (216 \<le> n \<and> n \<le> 246) \<or> (248 \<le> n \<and> n \<le> 255))"

definition is_digit :: "char \<Rightarrow> bool" where
  "is_digit c = (let n = (of_char c :: nat) in 48 \<le> n \<and> n \<le> 57)"

definition lower_char :: "char \<Rightarrow> char" where
  "lower_char c = (let n = (of_char c :: nat) in
     if (65 \<le> n \<and> n \<le> 90) \<or> (192 \<le> n \<and> n \<le> 222 \<and> n \<noteq> 215) then char_of (n + 32) else c)"

definition lower :: "string \<Rightarrow> string" where
  "lower s = map lower_char s"

definition lstrip :: "string \<Rightarrow> string" where
  "lstrip s = dropWhile is_space s"

definition rstrip :: "string \<Rightarrow> string" where
  "rstrip s = rev (dropWhile is_space (rev s))"

definition strip :: "string \<Rightarrow> string" where
  "strip s = rstrip (lstrip s)"

definition py_slice :: "'a list \<Rightarrow> int \<Rightarrow> int \<Rightarrow> 'a list" where
  \<comment> \<open>\<^verbatim>\<open>xs[a:b]\<close>: a negative bound counts from the end, both bounds are clamped\<close>
  "py_slice xs a b =
     (let n = int (length xs);
          a' = (if a < 0 then max (a + n) 0 else min a n);
          b' = (if b < 0 then max (b + n) 0 else min b n)
      in take (nat (b' - a')) (drop (nat a') xs))"

fun join :: "string \<Rightarrow> string list \<Rightarrow> string" where
  "join sep [] = []"
| "join sep [x] = x"
| "join sep (x # y # ys) = x @ sep @ join sep (y # ys)"

section \<open>Utilities\<close>

definition parse_bool :: "string \<Rightarrow> bool" where
  "parse_bool val = (lower (strip val) \<in> set [''1'', ''true'', ''yes'', ''y''])"

definition digit_val :: "char \<Rightarrow> int" where
  "digit_val c = int (of_char c) - 48"

definition is_int_space :: "char \<Rightarrow> bool" where
  \<comment> \<open>the blanks that \<^verbatim>\<open>int()\<close> accepts around a number: the ASCII ones, and the blanks
      above U+007F, which it first turns into spaces; the separators U+001C to U+001F are
      not among them\<close>
  "is_int_space c = (let n = (of_char c :: nat) in (9 \<le> n \<and> n \<le> 13) \<or> n = 32 \<or> n = 133 \<or> n = 160)"

definition int_max_str_digits :: nat where
  \<comment> \<open>the default of \<^verbatim>\<open>sys.int_max_str_digits\<close>: a longer decimal string is refused\<close>
  "int_max_str_digits = 4300"

definition int_of_str :: "string \<Rightarrow> int option" where
  \<comment> \<open>\<^verbatim>\<open>int(val)\<close> on a string: blanks around, an optional sign, then decimal digits, single
      underscores allowed between digits, at most \<^const>\<open>int_max_str_digits\<close> digits;
      \<^verbatim>\<open>None\<close> stands for the \<^verbatim>\<open>ValueError\<close>\<close>
  "int_of_str s =
     (let t = rev (dropWhile is_int_space (rev (dropWhile is_int_space s)));
          neg = (t \<noteq> [] \<and> hd t = CHR ''-'');
          body = (if t \<noteq> [] \<and> (hd t = CHR ''-'' \<or> hd t = CHR ''+'') then tl t else t);
          ok = (body \<noteq> [] \<and> is_digit (hd body) \<and> is_digit (last body)
                \<and> list_all (\<lambda>c. is_digit c \<or> c = CHR ''_'') body
                \<and> list_all (\<lambda>(c, d). \<not> (c = CHR ''_'' \<and> d = CHR ''_'')) (zip body (tl body))
                \<and> length (filter is_digit body) \<le> int_max_str_digits);
          v = foldl (\<lambda>acc c. 10 * acc + digit_val c) 0 (filter is_digit body)
      in if ok then Some (if neg then - v else v) else None)"

definition parse_int :: "string \<Rightarrow> int \<Rightarrow> int" where
  "parse_int val dflt = (case int_of_str val of Some v \<Rightarrow> v | None \<Rightarrow> dflt)"

lemma int_of_str_examples:
  "int_of_str '' 12 '' = Some 12" "int_of_str ''-7'' = Some (- 7)" "int_of_str ''1_000'' = Some 1000"
  "int_of_str ''1__0'' = None" "int_of_str ''x'' = None" "int_of_str [] = None"
  "int_of_str [CHR 0x1C, CHR ''1''] = None" "int_of_str [CHR 0xA0, CHR ''1''] = Some 1"
  by code_simp+

section \<open>PAGE custom parsing\<close>

text \<open>A parsed annotation is a Python dict: keys in insertion order, values integers or strings.\<close>

datatype pyval = PInt int | PStr string

type_synonym 'v pydict = "(string \<times> 'v) list"

fun dict_set :: "'v pydict \<Rightarrow> string \<Rightarrow> 'v \<Rightarrow> 'v pydict" where
  "dict_set [] k v = [(k, v)]"
| "dict_set ((k', v') # d) k v = (if k' = k then (k', v) # d else (k', v') # dict_set d k v)"

definition dict_get :: "'v pydict \<Rightarrow> string \<Rightarrow> 'v option" where
  "dict_get d k = map_of d k"

definition dict_get_default :: "'v pydict \<Rightarrow> string \<Rightarrow> 'v \<Rightarrow> 'v" where
  "dict_get_default d k v = (case map_of d k of Some x \<Rightarrow> x | None \<Rightarrow> v)"

definition dict_has :: "'v pydict \<Rightarrow> string \<Rightarrow> bool" where
  "dict_has d k = (map_of d k \<noteq> None)"

text \<open>
  \<^verbatim>\<open>re.finditer(r"(\w+)\s*\{([^}]*)\}", custom_str)\<close>: the matches from left to right, each
  as (kind, body). Every quantifier of the pattern is followed by a character outside its
  class, so a match attempt at a position has one way to succeed; a failed attempt moves
  the start one character on.
\<close>

function scan_tokens :: "string \<Rightarrow> (string \<times> string) list" where
  "scan_tokens [] = []"
| "scan_tokens (c # cs) =
     (let s = c # cs;
          afterw = dropWhile is_space (dropWhile is_word s)
      in if is_word c \<and> afterw \<noteq> [] \<and> hd afterw = CHR ''{''
            \<and> dropWhile (\<lambda>x. x \<noteq> CHR ''}'') (tl afterw) \<noteq> []
         then (takeWhile is_word s, takeWhile (\<lambda>x. x \<noteq> CHR ''}'') (tl afterw))
              # scan_tokens (tl (dropWhile (\<lambda>x. x \<noteq> CHR ''}'') (tl afterw)))
         else scan_tokens cs)"
  by pat_completeness auto
termination
proof (relation "measure length")
  fix c :: char and cs x xa
  assume "xa = dropWhile is_space (dropWhile is_word x)" and "x = c # cs"
  then have "length xa \<le> Suc (length cs)"
    by (metis length_dropWhile_le le_trans length_Cons)
  moreover assume "is_word c \<and> xa \<noteq> [] \<and> hd xa = CHR ''{''
     \<and> dropWhile (\<lambda>x. x \<noteq> CHR ''}'') (tl xa) \<noteq> []"
  then have "xa \<noteq> []" and "dropWhile (\<lambda>x. x \<noteq> CHR ''}'') (tl xa) \<noteq> []"
    by simp_all
  moreover have "length (dropWhile (\<lambda>x. x \<noteq> CHR ''}'') (tl xa)) \<le> length (tl xa)"
    by (rule length_dropWhile_le)
  ultimately show "(tl (dropWhile (\<lambda>x. x \<noteq> CHR ''}'') (tl xa)), c # cs) \<in> measure length"
    by (cases xa; cases "dropWhile (\<lambda>x. x \<noteq> CHR ''}'') (tl xa)") auto
qed auto

text \<open>
  \<^verbatim>\<open>re.finditer(r"(\w+)\s*:\s*([^;]+);", body)\<close>, each match as (key, stripped value). The
  value group must hold at least one character; leading blanks it may or may not take
  are removed by the \<^verbatim>\<open>strip()\<close> that follows.
\<close>

function scan_pairs :: "string \<Rightarrow> (string \<times> string) list" where
  "scan_pairs [] = []"
| "scan_pairs (c # cs) =
     (let s = c # cs;
          afterw = dropWhile is_space (dropWhile is_word s)
      in if is_word c \<and> afterw \<noteq> [] \<and> hd afterw = CHR '':''
            \<and> takeWhile (\<lambda>x. x \<noteq> CHR '';'') (tl afterw) \<noteq> []
            \<and> dropWhile (\<lambda>x. x \<noteq> CHR '';'') (tl afterw) \<noteq> []
         then (takeWhile is_word s, strip (takeWhile (\<lambda>x. x \<noteq> CHR '';'') (tl afterw)))
              # scan_pairs (tl (dropWhile (\<lambda>x. x \<noteq> CHR '';'') (tl afterw)))
         else scan_pairs cs)"
  by pat_completeness auto
termination
proof (relation "measure length")
  fix c :: char and cs x xa
  assume "xa = dropWhile is_space (dropWhile is_word x)" and "x = c # cs"
  then have "length xa \<le> Suc (length cs)"
    by (metis length_dropWhile_le le_trans length_Cons)
  moreover assume "is_word c \<and> xa \<noteq> [] \<and> hd xa = CHR '':''
     \<and> takeWhile (\<lambda>x. x \<noteq> CHR '';'') (tl xa) \<noteq> []
     \<and> dropWhile (\<lambda>x. x \<noteq> CHR '';'') (tl xa) \<noteq> []"
  then have "xa \<noteq> []" and "dropWhile (\<lambda>x. x \<noteq> CHR '';'') (tl xa) \<noteq> []"
    by simp_all
  moreover have "length (dropWhile (\<lambda>x. x \<noteq> CHR '';'') (tl xa)) \<le> length (tl xa)"
    by (rule length_dropWhile_le)
  ultimately show "(tl (dropWhile (\<lambda>x. x \<noteq> CHR '';'') (tl xa)), c # cs) \<in> measure length"
    by (cases xa; cases "dropWhile (\<lambda>x. x \<noteq> CHR '';'') (tl xa)") auto
qed auto

definition parse_bool_val :: "pyval \<Rightarrow> bool" where
  \<comment> \<open>\<^verbatim>\<open>parse_bool\<close> applies \<^verbatim>\<open>str()\<close> first; of the integers only 1 prints as a true spelling\<close>
  "parse_bool_val v = (case v of PStr s \<Rightarrow> parse_bool s | PInt i \<Rightarrow> i = 1)"

definition normalize_key :: "pyval pydict \<Rightarrow> string \<Rightarrow> pyval pydict" where
  \<comment> \<open>\<^verbatim>\<open>if k in op: op[k] = "true" if parse_bool(op[k]) else "false"\<close>\<close>
  "normalize_key d k =
     (case dict_get d k of
        None \<Rightarrow> d
      | Some v \<Rightarrow> dict_set d k (PStr (if parse_bool_val v then ''true'' else ''false'')))"

definition style_keys :: "string list" where
  "style_keys = [''bold'', ''italic'', ''underline'', ''superscript'', ''subscript'']"

definition parse_kv :: "string \<Rightarrow> string pydict" where
  \<comment> \<open>the dict \<^verbatim>\<open>kv\<close> of the key:value pairs of a body; a repeated key keeps its last value\<close>
  "parse_kv body = foldl (\<lambda>d (k, v). dict_set d k v) [] (scan_pairs body)"

definition parse_op :: "string \<Rightarrow> string \<Rightarrow> pyval pydict" where
  \<comment> \<open>the body of the loop of \<^verbatim>\<open>parse_custom_ops\<close> for one match\<close>
  "parse_op kind body =
     (let kv = parse_kv body;
          off = parse_int (dict_get_default kv ''offset'' ''0'') 0;
          len = parse_int (dict_get_default kv ''length'' ''0'') 0;
          op0 = [(''kind'', PStr kind), (''offset'', PInt off), (''length'', PInt len),
                 (''end'', PInt (off + len))];
          op1 = foldl (\<lambda>d (k, v). if k \<in> set [''offset'', ''length''] then d
                                     else dict_set d k (PStr v)) op0 kv;
          op2 = (if kind = ''textStyle'' then foldl normalize_key op1 style_keys else op1)
      in normalize_key op2 ''continued'')"

definition parse_custom_ops :: "string \<Rightarrow> pyval pydict list" where
  "parse_custom_ops custom_str = map (\<lambda>(kind, body). parse_op kind body) (scan_tokens custom_str)"

section \<open>Elements\<close>

text \<open>
  An \<^verbatim>\<open>ElementTree\<close> element: tag, attributes, the text before the first child, the tail
  after the element's end tag, and the children. The TEI namespace of a tag is left out.
  The code mutates elements in place; the model returns the changed element.
\<close>

datatype elem =
  Elem (tag: string) (attrib: "string pydict") (etext: "string option")
       (tail: "string option") (kids: "elem list")

datatype node = Str string | El elem

definition new_elem :: "string \<Rightarrow> elem" where
  "new_elem t = Elem t [] None None []"

fun set_text :: "elem \<Rightarrow> string option \<Rightarrow> elem" where
  "set_text (Elem t a x tq ks) x' = Elem t a x' tq ks"

fun set_tail :: "elem \<Rightarrow> string option \<Rightarrow> elem" where
  "set_tail (Elem t a x tq ks) tq' = Elem t a x tq' ks"

fun set_kids :: "elem \<Rightarrow> elem list \<Rightarrow> elem" where
  "set_kids (Elem t a x tq ks) ks' = Elem t a x tq ks'"

fun set_attr :: "elem \<Rightarrow> string \<Rightarrow> string \<Rightarrow> elem" where
  "set_attr (Elem t a x tq ks) k v = Elem t (dict_set a k v) x tq ks"

definition append_kid :: "elem \<Rightarrow> elem \<Rightarrow> elem" where
  "append_kid parent c = set_kids parent (kids parent @ [c])"

definition truthy :: "string option \<Rightarrow> bool" where
  \<comment> \<open>\<^verbatim>\<open>if s:\<close> for an optional string\<close>
  "truthy s = (case s of None \<Rightarrow> False | Some x \<Rightarrow> x \<noteq> [])"

definition or_empty :: "string option \<Rightarrow> string" where
  \<comment> \<open>\<^verbatim>\<open>s or ""\<close>\<close>
  "or_empty s = (case s of None \<Rightarrow> [] | Some x \<Rightarrow> x)"

definition py_or :: "string option \<Rightarrow> string option \<Rightarrow> string option" where
  \<comment> \<open>\<^verbatim>\<open>a or b\<close>\<close>
  "py_or a b = (if truthy a then a else b)"

definition append_text :: "elem \<Rightarrow> string \<Rightarrow> elem" where
  "append_text parent s =
     (if s = [] then parent
      else if etext parent = None \<and> kids parent = [] then set_text parent (Some s)
      else if kids parent \<noteq> []
           then set_kids parent (butlast (kids parent) @
                  [set_tail (last (kids parent)) (Some (or_empty (tail (last (kids parent))) @ s))])
           else set_text parent (Some (or_empty (etext parent) @ s)))"

section \<open>Annotation spans\<close>

text \<open>
  The renderer reads the keys \<^verbatim>\<open>kind\<close>, \<^verbatim>\<open>offset\<close>, \<^verbatim>\<open>length\<close> and \<^verbatim>\<open>end\<close> of an annotation
  and looks every other key up by name: a record with the four fields and the dict of the
  remaining string attributes.
\<close>

record span_op =
  kind :: string
  offset :: int
  length_op :: int
  end_op :: int
  attrs :: "string pydict"

section \<open>Inline TEI builders\<close>

type_synonym range = "int \<times> int \<times> string"

definition slice_text_nodes :: "string \<Rightarrow> range list \<Rightarrow> (int \<times> int \<times> string \<times> string list) list" where
  \<comment> \<open>the label set of a segment is kept as a duplicate-free list; the caller only tests it
      for emptiness and sorts it\<close>
  "slice_text_nodes text ranges =
     (let n = int (length text);
          cut_points = 0 # n # concat (map (\<lambda>(s, e, lab). [max 0 (min n s), max 0 (min n e)]) ranges);
          cuts = sort (remdups cut_points)
      in concat (map (\<lambda>(s, e).
            if s = e then []
            else [(s, e, py_slice text s e,
                   remdups (map (\<lambda>(ss, ee, lab). lab)
                     (filter (\<lambda>(ss, ee, lab). ss \<le> s \<and> e \<le> ee \<and> ss < ee) ranges)))])
          (zip cuts (tl cuts))))"

definition style_flag :: "span_op \<Rightarrow> string \<Rightarrow> string list" where
  \<comment> \<open>\<^verbatim>\<open>if op.get(k, "false") == "true": rend.append(k)\<close>\<close>
  "style_flag op k = (if dict_get_default (attrs op) k ''false'' = ''true'' then [k] else [])"

definition rend_of :: "span_op \<Rightarrow> string list" where
  \<comment> \<open>the list \<^verbatim>\<open>rend\<close> of the style flags of an annotation that are set\<close>
  "rend_of op = style_flag op ''bold'' @ style_flag op ''italic'' @ style_flag op ''underline''
                @ style_flag op ''superscript'' @ style_flag op ''subscript''"

definition style_ranges :: "span_op list \<Rightarrow> range list" where
  "style_ranges style_ops =
     concat (map (\<lambda>op. if rend_of op = [] then []
                        else [(offset op, end_op op, join '' '' (rend_of op))]) style_ops)"

definition punct_only :: "string \<Rightarrow> bool" where
  \<comment> \<open>\<^verbatim>\<open>seg_stripped and all(ch in string.punctuation for ch in seg_stripped)\<close>\<close>
  "punct_only seg_text = (strip seg_text \<noteq> [] \<and> list_all is_punct (strip seg_text))"

definition hi_elem :: "string list \<Rightarrow> string \<Rightarrow> elem" where
  "hi_elem labels seg_text = Elem ''hi'' [(''rend'', join '' '' (sort labels))] (Some seg_text) None []"

definition styled_segment :: "elem \<Rightarrow> (int \<times> int \<times> string \<times> string list) \<Rightarrow> elem" where
  \<comment> \<open>the body of the loop of \<^verbatim>\<open>build_styled_nodes\<close>\<close>
  "styled_segment parent seg =
     (case seg of (s, e, seg_text, labels) \<Rightarrow>
        if labels = [] then append_text parent seg_text
        else if punct_only seg_text then append_text parent seg_text
        else append_kid parent (hi_elem labels seg_text))"

definition build_styled_nodes :: "elem \<Rightarrow> string \<Rightarrow> span_op list \<Rightarrow> elem" where
  "build_styled_nodes parent text style_ops =
     (let ranges = style_ranges style_ops
      in if ranges = [] then append_text parent text
         else foldl styled_segment parent (slice_text_nodes text ranges))"

section \<open>Containment tree\<close>

definition op_priority :: "string \<Rightarrow> nat" where
  "op_priority k =
     (if k \<in> set [''person'', ''place'', ''ref'', ''unclear''] then 0
      else if k \<in> set [''abbrev'', ''sic'', ''regularised'', ''num''] then 1
      else 2)"

definition of_kind :: "string \<Rightarrow> span_op list \<Rightarrow> span_op list" where
  "of_kind k ops = filter (\<lambda>x. kind x = k \<and> length_op x > 0) ops"

definition choice_ops :: "span_op list \<Rightarrow> span_op list" where
  "choice_ops ops = filter (\<lambda>x. kind x \<in> set [''abbrev'', ''sic'', ''regularised''] \<and> length_op x > 0) ops"

definition known_kinds :: "string list" where
  "known_kinds = [''abbrev'', ''sic'', ''regularised'', ''num'', ''person'', ''place'', ''ref'',
                  ''unclear'', ''textStyle'']"

definition other_ops :: "span_op list \<Rightarrow> span_op list" where
  "other_ops ops = filter (\<lambda>x. kind x \<notin> set known_kinds \<and> length_op x > 0) ops"

definition sort_key_of :: "span_op \<Rightarrow> int \<times> int \<times> nat" where
  "sort_key_of x = (offset x, - end_op x, op_priority (kind x))"

definition wrappers :: "span_op list \<Rightarrow> span_op list" where
  \<comment> \<open>\<^verbatim>\<open>sorted\<close> is stable, as \<^const>\<open>sort_key\<close> is\<close>
  "wrappers ops =
     sort_key sort_key_of
       (of_kind ''person'' ops @ of_kind ''place'' ops @ of_kind ''ref'' ops @ of_kind ''unclear'' ops
        @ choice_ops ops @ of_kind ''num'' ops @ other_ops ops)"

definition encloses :: "span_op \<Rightarrow> span_op \<Rightarrow> bool" where
  \<comment> \<open>\<^verbatim>\<open>pw["offset"] <= w["offset"] and pw["end"] >= w["end"]\<close>\<close>
  "encloses pw w = (offset pw \<le> offset w \<and> end_op pw \<ge> end_op w)"

definition find_parent :: "span_op list \<Rightarrow> nat \<Rightarrow> nat option" where
  \<comment> \<open>the inner loop: \<^verbatim>\<open>for j in range(i - 1, -1, -1)\<close>, first hit\<close>
  "find_parent ws i = find (\<lambda>j. encloses (ws ! j) (ws ! i)) (rev [0..<i])"

definition tree_step :: "span_op list \<Rightarrow> nat \<Rightarrow> nat list list \<times> nat list \<Rightarrow> nat list list \<times> nat list" where
  "tree_step ws i st =
     (case st of (children, roots) \<Rightarrow>
        (case find_parent ws i of
           None \<Rightarrow> (children, roots @ [i])
         | Some p \<Rightarrow> (children[p := children ! p @ [i]], roots)))"

definition tree_upto :: "span_op list \<Rightarrow> nat \<Rightarrow> nat list list \<times> nat list" where
  \<comment> \<open>\<^verbatim>\<open>children\<close> (one list per wrapper index) and \<^verbatim>\<open>roots\<close> after the first k rounds
      of the loop \<^verbatim>\<open>for i, w in enumerate(wrappers)\<close>\<close>
  "tree_upto ws k = fold (tree_step ws) [0..<k] (replicate (length ws) [], [])"

definition build_tree :: "span_op list \<Rightarrow> nat list list \<times> nat list" where
  "build_tree ws = tree_upto ws (length ws)"

definition children_of :: "span_op list \<Rightarrow> nat \<Rightarrow> nat list" where
  \<comment> \<open>\<^verbatim>\<open>children.get(idx, [])\<close>\<close>
  "children_of ws idx = (let ch = fst (build_tree ws) in if idx < length ch then ch ! idx else [])"

definition roots_of :: "span_op list \<Rightarrow> nat list" where
  "roots_of ws = snd (build_tree ws)"

section \<open>Rendering a line\<close>

definition render_plain_segment :: "string \<Rightarrow> span_op list \<Rightarrow> int \<Rightarrow> int \<Rightarrow> node list" where
  "render_plain_segment text style_ops seg_start seg_end =
     (let seg_text = py_slice text seg_start seg_end
      in if seg_text = [] then []
         else
           let seg_styles = filter (\<lambda>s. seg_start \<le> offset s \<and> end_op s \<le> seg_end) style_ops;
               tmp = build_styled_nodes (new_elem ''tmp'') seg_text seg_styles
           in (if truthy (etext tmp) then [Str (or_empty (etext tmp))] else [])
              @ concat (map (\<lambda>ch. if truthy (tail ch)
                                     then [El (set_tail ch None), Str (or_empty (tail ch))]
                                     else [El ch]) (kids tmp)))"

definition insert_node :: "elem \<Rightarrow> node \<Rightarrow> elem" where
  "insert_node tmp n = (case n of Str s \<Rightarrow> append_text tmp s | El e \<Rightarrow> append_kid tmp e)"

definition take_lead :: "elem \<Rightarrow> string \<times> elem" where
  \<comment> \<open>\<^verbatim>\<open>re.match(r"^(\s+)(.*)$", tmp.text, flags=re.DOTALL)\<close> matches when the text starts
      with a blank and splits off the longest run of leading blanks\<close>
  "take_lead tmp =
     (let t = or_empty (etext tmp)
      in if truthy (etext tmp) \<and> is_space (hd t)
         then (takeWhile is_space t, set_text tmp (Some (dropWhile is_space t)))
         else ([], tmp))"

definition split_trail :: "string option \<Rightarrow> (string \<times> string) option" where
  \<comment> \<open>\<^verbatim>\<open>re.match(r"^(.*?)(\s+)$", s, flags=re.DOTALL)\<close> on a non-empty string matches when
      it ends with a blank; the lazy first group leaves the longest run of trailing blanks
      to the second\<close>
  "split_trail s =
     (let t = or_empty s
      in if truthy s \<and> is_space (last t)
         then Some (rstrip t, rev (takeWhile is_space (rev t)))
         else None)"

definition take_trail :: "elem \<Rightarrow> string \<times> elem" where
  "take_trail tmp =
     (if kids tmp \<noteq> []
      then (case split_trail (tail (last (kids tmp))) of
              Some (body, trail) \<Rightarrow>
                (trail, set_kids tmp (butlast (kids tmp) @ [set_tail (last (kids tmp)) (Some body)]))
            | None \<Rightarrow> ([], tmp))
      else (case split_trail (etext tmp) of
              Some (body, trail) \<Rightarrow> (trail, set_text tmp (Some body))
            | None \<Rightarrow> ([], tmp)))"

definition populate_target_with_nodes :: "elem \<Rightarrow> node list \<Rightarrow> string \<times> elem \<times> string" where
  "populate_target_with_nodes target nodes_to_insert =
     (let tmp0 = foldl insert_node (new_elem ''tmp'') nodes_to_insert;
          (lead, tmp1) = take_lead tmp0;
          (trail, tmp2) = take_trail tmp1;
          target1 = (if truthy (etext tmp2)
                     then set_text target (Some (or_empty (etext target) @ or_empty (etext tmp2)))
                     else target);
          target2 = foldl append_kid target1 (kids tmp2)
      in (lead, target2, trail))"

datatype built = Plain elem | Tup string elem string

definition maybe_wrap_with_edge_whitespace :: "string \<times> elem \<times> string \<Rightarrow> elem \<Rightarrow> built" where
  "maybe_wrap_with_edge_whitespace pop_res wrap_el =
     (case pop_res of (lead, el, trail) \<Rightarrow>
        if lead \<noteq> [] \<or> trail \<noteq> [] then Tup lead wrap_el trail else Plain wrap_el)"

definition set_if_present :: "span_op \<Rightarrow> string \<Rightarrow> string \<Rightarrow> elem \<Rightarrow> elem" where
  \<comment> \<open>\<^verbatim>\<open>if key in w: el.set(name, w[key])\<close>\<close>
  "set_if_present w key name el =
     (case dict_get (attrs w) key of Some v \<Rightarrow> set_attr el name v | None \<Rightarrow> el)"

definition choice_elem :: "elem \<Rightarrow> elem \<Rightarrow> elem" where
  "choice_elem a b = Elem ''choice'' [] None None [a, b]"

definition pers_elem :: "span_op \<Rightarrow> elem" where
  \<comment> \<open>the empty \<^verbatim>\<open>persName\<close> with the attributes of a person annotation\<close>
  "pers_elem w =
     (let e0 = set_if_present w ''type'' ''type'' (new_elem ''persName'');
          e1 = (case dict_get (attrs w) ''wikiData'' of
                  Some q \<Rightarrow> set_attr e0 ''ref'' (''https://www.wikidata.org/wiki/'' @ q)
                | None \<Rightarrow> e0);
          e2 = set_if_present w ''firstname'' ''firstname'' e1
      in if dict_get (attrs w) ''continued'' = Some ''true'' then set_attr e2 ''continued'' ''true'' else e2)"

definition is_elem :: "node \<Rightarrow> bool" where
  "is_elem n = (case n of El e \<Rightarrow> True | Str s \<Rightarrow> False)"

definition regularised_element :: "span_op \<Rightarrow> string \<Rightarrow> node list \<Rightarrow> built" where
  "regularised_element w witness_text inner_nodes =
     (let alt = dict_get_default (attrs w) ''original'' [];
          orig_attr = py_or (dict_get (attrs w) ''original'') (dict_get (attrs w) ''orig'');
          reg_attr = py_or (dict_get (attrs w) ''regularised'') (dict_get (attrs w) ''reg'');
          a = set_text (new_elem ''orig'') (Some (case orig_attr of Some x \<Rightarrow> x | None \<Rightarrow> alt));
          b = new_elem ''reg''
      in case reg_attr of
           Some reg \<Rightarrow>
             (let filtered_inner = filter (\<lambda>n. case n of Str x \<Rightarrow> strip x \<noteq> strip witness_text
                                                        | El e \<Rightarrow> True) inner_nodes;
                  element_children = filter is_elem filtered_inner
              in if element_children = [] then Plain (choice_elem a (set_text b (Some reg)))
                 else
                   (case populate_target_with_nodes (new_elem ''tmp'') element_children of
                      (lead, tmp, trail) \<Rightarrow>
                        maybe_wrap_with_edge_whitespace (lead, tmp, trail)
                          (choice_elem a (foldl append_kid (set_text b (Some reg)) (kids tmp)))))
         | None \<Rightarrow>
             (case populate_target_with_nodes b inner_nodes of
                (lead, b', trail) \<Rightarrow>
                  maybe_wrap_with_edge_whitespace (lead, b', trail) (choice_elem a b')))"

definition witness_choice_element :: "span_op \<Rightarrow> string \<Rightarrow> string \<Rightarrow> string \<Rightarrow> node list \<Rightarrow> built" where
  \<comment> \<open>abbrev and sic: the first part takes the inner nodes, the second the attribute\<close>
  "witness_choice_element w a_tag b_tag alt_key inner_nodes =
     (let alt = dict_get_default (attrs w) alt_key []
      in case populate_target_with_nodes (new_elem a_tag) inner_nodes of
           (lead, a', trail) \<Rightarrow>
             maybe_wrap_with_edge_whitespace (lead, a', trail)
               (choice_elem a' (set_text (new_elem b_tag) (Some alt))))"

definition simple_element :: "elem \<Rightarrow> node list \<Rightarrow> built" where
  "simple_element el inner_nodes =
     (case populate_target_with_nodes el inner_nodes of
        (lead, el', trail) \<Rightarrow> maybe_wrap_with_edge_whitespace (lead, el', trail) el')"

definition place_element :: "span_op \<Rightarrow> node list \<Rightarrow> built" where
  "place_element w inner_nodes =
     (case populate_target_with_nodes (new_elem ''placeName'') inner_nodes of
        (lead, el, trail) \<Rightarrow>
          maybe_wrap_with_edge_whitespace (lead, el, trail)
            (foldl (\<lambda>el attr. case dict_get (attrs w) attr of
                                 Some v \<Rightarrow> append_kid el (set_text (new_elem attr) (Some v))
                               | None \<Rightarrow> el)
               el [''country'', ''region'', ''settlement'', ''district'']))"

definition seg_elem :: "span_op \<Rightarrow> elem" where
  "seg_elem w =
     foldl (\<lambda>el (key, v). if key \<in> set [''kind'', ''offset'', ''length'', ''end''] then el
                            else set_attr el (''data-'' @ key) v)
       (set_attr (new_elem ''seg'') ''type'' (kind w)) (attrs w)"

definition build_wrapper_element :: "string \<Rightarrow> span_op list \<Rightarrow> nat \<Rightarrow> node list \<Rightarrow> built" where
  "build_wrapper_element text ws idx inner_nodes =
     (let w = ws ! idx;
          k = kind w;
          witness_text = py_slice text (offset w) (end_op w)
      in if k = ''abbrev'' then witness_choice_element w ''abbr'' ''expan'' ''expansion'' inner_nodes
         else if k = ''sic'' then witness_choice_element w ''sic'' ''corr'' ''correction'' inner_nodes
         else if k = ''regularised'' then regularised_element w witness_text inner_nodes
         else if k = ''num'' then
           simple_element (set_if_present w ''value'' ''value''
                            (set_if_present w ''type'' ''type'' (new_elem ''num''))) inner_nodes
         else if k = ''person'' then simple_element (pers_elem w) inner_nodes
         else if k = ''place'' then place_element w inner_nodes
         else if k = ''ref'' then
           simple_element (set_if_present w ''target'' ''target''
                            (set_if_present w ''type'' ''type'' (new_elem ''ref''))) inner_nodes
         else if k = ''unclear'' then
           simple_element (set_if_present w ''reason'' ''reason'' (new_elem ''unclear'')) inner_nodes
         else simple_element (seg_elem w) inner_nodes)"

definition emit_built :: "built \<Rightarrow> node list" where
  \<comment> \<open>what the caller appends for a built wrapper\<close>
  "emit_built b =
     (case b of
        Plain el \<Rightarrow> [El el]
      | Tup lead el trail \<Rightarrow>
          (if lead \<noteq> [] then [Str lead] else []) @ [El el] @ (if trail \<noteq> [] then [Str trail] else []))"

definition wrapper_step ::
  "string \<Rightarrow> span_op list \<Rightarrow> span_op list \<Rightarrow> nat \<Rightarrow> node list \<Rightarrow> node list \<times> int \<Rightarrow> node list \<times> int" where
  \<comment> \<open>one round of the loop over sorted children (or roots), given the wrapper's rendered
      inner content; the state is the output so far and the cursor\<close>
  "wrapper_step text style_ops ws cidx inner st =
     (case st of (output, cursor) \<Rightarrow>
        (let cw = ws ! cidx;
             output1 = (if cursor < offset cw
                        then output @ render_plain_segment text style_ops cursor (offset cw)
                        else output)
         in (output1 @ emit_built (build_wrapper_element text ws cidx inner), end_op cw)))"

text \<open>
  A child's index is above its parent's: the recursion of \<^verbatim>\<open>render_span\<close> through the
  children lists ends.
\<close>

lemma find_Some_mem: "find P xs = Some x \<Longrightarrow> x \<in> set xs \<and> P x"
  by (induction xs) (auto split: if_splits)

lemma find_parent_less: "find_parent ws i = Some p \<Longrightarrow> p < i"
  unfolding find_parent_def by (drule find_Some_mem) simp

lemma tree_upto_0: "tree_upto ws 0 = (replicate (length ws) [], [])"
  by (simp add: tree_upto_def)

lemma tree_upto_Suc: "tree_upto ws (Suc k) = tree_step ws k (tree_upto ws k)"
  by (simp add: tree_upto_def)

lemma tree_upto_length: "length (fst (tree_upto ws k)) = length ws"
proof (induction k)
  case 0
  show ?case by (simp add: tree_upto_0)
next
  case (Suc k)
  then show ?case
    by (cases "tree_upto ws k"; cases "find_parent ws k")
       (simp_all add: tree_upto_Suc tree_step_def)
qed

lemma tree_upto_bounds:
  "k \<le> length ws \<Longrightarrow> p < length ws \<Longrightarrow> c \<in> set (fst (tree_upto ws k) ! p) \<Longrightarrow> p < c \<and> c < k"
proof (induction k arbitrary: c)
  case 0
  then show ?case by (simp add: tree_upto_0)
next
  case (Suc k)
  obtain ch rs where st: "tree_upto ws k = (ch, rs)"
    by (cases "tree_upto ws k")
  have len: "length ch = length ws"
    using tree_upto_length [of ws k] st by simp
  have old: "\<And>c. c \<in> set (ch ! p) \<Longrightarrow> p < c \<and> c < k"
    using Suc.IH Suc.prems(1,2) st by simp
  show ?case
  proof (cases "find_parent ws k")
    case None
    then have "fst (tree_upto ws (Suc k)) = ch"
      by (simp add: tree_upto_Suc st tree_step_def)
    with Suc.prems(3) old [of c] show ?thesis by simp
  next
    case (Some q)
    then have q: "q < k" by (rule find_parent_less)
    from Some have eq: "fst (tree_upto ws (Suc k)) = ch[q := ch ! q @ [k]]"
      by (simp add: tree_upto_Suc st tree_step_def)
    show ?thesis
    proof (cases "p = q")
      case True
      with Suc.prems eq len have "c \<in> set (ch ! p) \<or> c = k" by auto
      with old [of c] q True show ?thesis by auto
    next
      case False
      with Suc.prems eq have "c \<in> set (ch ! p)" by simp
      with old [of c] show ?thesis by simp
    qed
  qed
qed

lemma children_of_bounds:
  assumes "c \<in> set (children_of ws p)"
  shows "p < c \<and> c < length ws"
proof -
  from assms have "p < length ws" and "c \<in> set (fst (tree_upto ws (length ws)) ! p)"
    by (simp_all add: children_of_def Let_def build_tree_def tree_upto_length split: if_splits)
  then show ?thesis using tree_upto_bounds [of "length ws" ws p c] by simp
qed

function render_span :: "string \<Rightarrow> span_op list \<Rightarrow> span_op list \<Rightarrow> int \<Rightarrow> int \<Rightarrow> nat list \<Rightarrow> node list" where
  "render_span text style_ops ws span_start span_end child_idxs =
     (if child_idxs = [] then render_plain_segment text style_ops span_start span_end
      else
        (case fold (\<lambda>cidx. wrapper_step text style_ops ws cidx
                     (render_span text style_ops ws (offset (ws ! cidx)) (end_op (ws ! cidx))
                        (children_of ws cidx)))
                (sort_key (\<lambda>i. offset (ws ! i)) child_idxs) ([], span_start) of
           (output, cursor_local) \<Rightarrow>
             if cursor_local < span_end
             then output @ render_plain_segment text style_ops cursor_local span_end
             else output))"
  by pat_completeness auto
termination
proof (relation "measure (\<lambda>(text, style_ops, ws, s, e, cs).
          if cs = [] then 0 else Suc (Max ((\<lambda>c. length ws - c) ` set cs)))")
  fix tx :: string and style_ops ws :: "span_op list" and span_start span_end :: int
    and child_idxs :: "nat list" and x :: nat
  assume ne: "child_idxs \<noteq> []" and "x \<in> set (sort_key (\<lambda>i. offset (ws ! i)) child_idxs)"
  then have x: "x \<in> set child_idxs" by simp
  have "(if children_of ws x = [] then 0
         else Suc (Max ((\<lambda>c. length ws - c) ` set (children_of ws x))))
        < Suc (Max ((\<lambda>c. length ws - c) ` set child_idxs))"
  proof (cases "children_of ws x = []")
    case True
    then show ?thesis by simp
  next
    case False
    have "\<forall>c \<in> set (children_of ws x). length ws - c < length ws - x"
      using children_of_bounds by fastforce
    then have "Max ((\<lambda>c. length ws - c) ` set (children_of ws x)) < length ws - x"
      using False by simp
    moreover have "length ws - x \<le> Max ((\<lambda>c. length ws - c) ` set child_idxs)"
      using x by simp
    ultimately have "Max ((\<lambda>c. length ws - c) ` set (children_of ws x))
        < Max ((\<lambda>c. length ws - c) ` set child_idxs)"
      by (rule less_le_trans)
    then show ?thesis using False by (simp del: Max_less_iff)
  qed
  with ne show "((tx, style_ops, ws, offset (ws ! x), end_op (ws ! x), children_of ws x),
         tx, style_ops, ws, span_start, span_end, child_idxs)
        \<in> measure (\<lambda>(text, style_ops, ws, s, e, cs).
          if cs = [] then 0 else Suc (Max ((\<lambda>c. length ws - c) ` set cs)))"
    by simp
qed simp

declare render_span.simps [simp del]

definition render_roots :: "string \<Rightarrow> span_op list \<Rightarrow> span_op list \<Rightarrow> node list" where
  \<comment> \<open>the top-level sequence, before the post-processing step\<close>
  "render_roots text style_ops ws =
     (let roots = roots_of ws;
          n = int (length text)
      in if roots = [] then render_plain_segment text style_ops 0 n
         else
           (case fold (\<lambda>ridx. wrapper_step text style_ops ws ridx
                        (render_span text style_ops ws (offset (ws ! ridx)) (end_op (ws ! ridx))
                           (children_of ws ridx)))
                   (sort_key (\<lambda>i. offset (ws ! i)) roots) ([], 0) of
              (nodes, cursor) \<Rightarrow>
                if cursor < n then nodes @ render_plain_segment text style_ops cursor n
                else nodes))"

section \<open>Wrapping a choice in a persName after rendering\<close>

fun wrap_choice_in_persname_in_element :: "elem \<Rightarrow> span_op \<Rightarrow> bool \<times> elem"
  and wrap_choice_in_children :: "elem list \<Rightarrow> span_op \<Rightarrow> bool \<times> elem list" where
  "wrap_choice_in_persname_in_element (Elem t a x tq ks) person_op =
     (if t = ''persName'' then (False, Elem t a x tq ks)
      else (case wrap_choice_in_children ks person_op of
              (wrapped, ks') \<Rightarrow> (wrapped, Elem t a x tq ks')))"
| "wrap_choice_in_children [] person_op = (False, [])"
| "wrap_choice_in_children (child # rest) person_op =
     (if tag child = ''persName''
      then (case wrap_choice_in_children rest person_op of
              (wrapped, rest') \<Rightarrow> (wrapped, child # rest'))
      else if tag child = ''choice''
      then (True, set_kids (pers_elem person_op) [child] # rest)
      else (case wrap_choice_in_persname_in_element child person_op of
              (wrapped, child') \<Rightarrow>
                if wrapped then (True, child' # rest)
                else (case wrap_choice_in_children rest person_op of
                        (wrapped', rest') \<Rightarrow> (wrapped', child # rest'))))"

fun wrap_choice_in_nodes_list :: "node list \<Rightarrow> span_op \<Rightarrow> bool \<times> node list" where
  "wrap_choice_in_nodes_list [] person_op = (False, [])"
| "wrap_choice_in_nodes_list (Str s # rest) person_op =
     (case wrap_choice_in_nodes_list rest person_op of
        (wrapped, rest') \<Rightarrow> (wrapped, Str s # rest'))"
| "wrap_choice_in_nodes_list (El n # rest) person_op =
     (if tag n = ''persName''
      then (case wrap_choice_in_nodes_list rest person_op of
              (wrapped, rest') \<Rightarrow> (wrapped, El n # rest'))
      else if tag n = ''choice''
      then (True, El (set_tail (set_kids (pers_elem person_op) [set_tail n None]) (tail n)) # rest)
      else (case wrap_choice_in_persname_in_element n person_op of
              (wrapped, n') \<Rightarrow>
                if wrapped then (True, El n' # rest)
                else (case wrap_choice_in_nodes_list rest person_op of
                        (wrapped', rest') \<Rightarrow> (wrapped', El n # rest'))))"

definition overlaps :: "span_op \<Rightarrow> span_op \<Rightarrow> bool" where
  \<comment> \<open>\<^verbatim>\<open>max(p["offset"], c["offset"]) < min(p["end"], c["end"])\<close>\<close>
  "overlaps p c = (max (offset p) (offset c) < min (end_op p) (end_op c))"

fun wrap_for_person :: "span_op \<Rightarrow> span_op list \<Rightarrow> node list \<Rightarrow> node list" where
  \<comment> \<open>the inner loop \<^verbatim>\<open>for c in choice_ops\<close>, left at the first wrap that succeeds\<close>
  "wrap_for_person p [] nodes = nodes"
| "wrap_for_person p (c # cs) nodes =
     (if overlaps p c
      then (case wrap_choice_in_nodes_list nodes p of
              (wrapped, nodes') \<Rightarrow> if wrapped then nodes' else wrap_for_person p cs nodes')
      else wrap_for_person p cs nodes)"

definition unify_entities :: "span_op list \<Rightarrow> node list \<Rightarrow> node list" where
  \<comment> \<open>the outer loop \<^verbatim>\<open>for p in person_ops\<close>\<close>
  "unify_entities ops nodes =
     fold (\<lambda>p nodes. wrap_for_person p (choice_ops ops) nodes) (of_kind ''person'' ops) nodes"

definition build_inline_nodes_for_line :: "string \<Rightarrow> span_op list \<Rightarrow> node list" where
  "build_inline_nodes_for_line text ops =
     unify_entities ops (render_roots text (of_kind ''textStyle'' ops) (wrappers ops))"

section \<open>A line without annotations\<close>

lemma render_no_spans:
  "build_inline_nodes_for_line text [] = (if text = [] then [] else [Str text])"
  by (simp add: build_inline_nodes_for_line_def unify_entities_def of_kind_def wrappers_def
      choice_ops_def other_ops_def render_roots_def roots_of_def build_tree_def tree_upto_def
      render_plain_segment_def py_slice_def build_styled_nodes_def style_ranges_def
      append_text_def new_elem_def truthy_def or_empty_def Let_def)

text \<open>
  C8, as the code has it: with an empty span list a non-empty text is returned as one plain
  text run equal to the text, and the empty text as the empty node sequence (the plain
  segment renderer returns no node for an empty slice).
\<close>

theorem C8_empty_span_list:
  "build_inline_nodes_for_line text [] = (if text = [] then [] else [Str text])"
  by (rule render_no_spans)

theorem C8_empty_span_list_witness:
  "build_inline_nodes_for_line ''ab'' [] = [Str ''ab'']"
  using C8_empty_span_list [of "''ab''"] by simp

text \<open>
  C8 as stated fails for the empty text: the result is not a single empty text run.
\<close>

theorem C8_empty_text_counterexample:
  "build_inline_nodes_for_line [] [] \<noteq> [Str []]"
  by (simp add: render_no_spans)

section \<open>The annotation parser normalises boolean attributes\<close>

lemma map_of_dict_set: "map_of (dict_set d k v) k' = (if k' = k then Some v else map_of d k')"
  by (induction d) auto

lemma keys_dict_set:
  "map fst (dict_set d k v) = (if k \<in> set (map fst d) then map fst d else map fst d @ [k])"
  by (induction d) (fastforce simp: image_iff)+

lemma distinct_dict_set: "distinct (map fst d) \<Longrightarrow> distinct (map fst (dict_set d k v))"
  by (simp add: keys_dict_set)

lemma distinct_foldl_dict_set:
  "distinct (map fst d) \<Longrightarrow> distinct (map fst (foldl (\<lambda>d (k, v). dict_set d k v) d ps))"
  by (induction ps arbitrary: d) (auto simp: distinct_dict_set)

lemma distinct_parse_kv: "distinct (map fst (parse_kv body))"
  unfolding parse_kv_def by (rule distinct_foldl_dict_set) simp

lemma map_of_copy_attrs:
  "distinct (map fst kv) \<Longrightarrow>
   map_of (foldl (\<lambda>d (k, v). if k \<in> S then d else dict_set d k (PStr v)) d0 kv) k =
     (if k \<in> S then map_of d0 k
      else (case map_of kv k of Some v \<Rightarrow> Some (PStr v) | None \<Rightarrow> map_of d0 k))"
proof (induction kv arbitrary: d0)
  case Nil
  show ?case by simp
next
  case (Cons p kv)
  obtain k1 v1 where p: "p = (k1, v1)" by (cases p)
  from Cons.prems p have d: "distinct (map fst kv)" and nin: "k1 \<notin> fst ` set kv" by auto
  from nin have none: "map_of kv k1 = None" by (simp add: map_of_eq_None_iff)
  show ?case
    using Cons.IH [OF d] none by (auto simp: p map_of_dict_set split: option.splits)
qed

lemma map_of_normalize_key:
  "map_of (normalize_key d k) k' =
     (if k' = k then (case map_of d k of None \<Rightarrow> None
                      | Some v \<Rightarrow> Some (PStr (if parse_bool_val v then ''true'' else ''false'')))
      else map_of d k')"
  by (auto simp: normalize_key_def dict_get_def map_of_dict_set split: option.splits)

definition normalized :: "pyval option \<Rightarrow> pyval option" where
  "normalized x = (case x of None \<Rightarrow> None
      | Some v \<Rightarrow> Some (PStr (if parse_bool_val v then ''true'' else ''false'')))"

lemma map_of_normalize_key': "map_of (normalize_key d k) k' = (if k' = k then normalized (map_of d k) else map_of d k')"
  by (simp add: map_of_normalize_key normalized_def)

lemma map_of_normalize_keys:
  "distinct ks \<Longrightarrow>
   map_of (foldl normalize_key d ks) k = (if k \<in> set ks then normalized (map_of d k) else map_of d k)"
  by (induction ks arbitrary: d) (auto simp: map_of_normalize_key')

lemma parse_op_lookup:
  assumes "dict_get (parse_kv body) k = Some v"
    and "k \<notin> set [''offset'', ''length'']"
  shows "dict_get (parse_op tk body) k =
     Some (PStr (if k = ''continued'' \<or> (tk = ''textStyle'' \<and> k \<in> set style_keys)
                 then (if parse_bool v then ''true'' else ''false'') else v))"
proof -
  define op0 where "op0 = [(''kind'', PStr tk),
      (''offset'', PInt (parse_int (dict_get_default (parse_kv body) ''offset'' ''0'') 0)),
      (''length'', PInt (parse_int (dict_get_default (parse_kv body) ''length'' ''0'') 0)),
      (''end'', PInt (parse_int (dict_get_default (parse_kv body) ''offset'' ''0'') 0
                      + parse_int (dict_get_default (parse_kv body) ''length'' ''0'') 0))]"
  define op1 where "op1 = foldl (\<lambda>d (k, v). if k \<in> set [''offset'', ''length''] then d
                                     else dict_set d k (PStr v)) op0 (parse_kv body)"
  define op2 where "op2 = (if tk = ''textStyle'' then foldl normalize_key op1 style_keys else op1)"
  have op: "parse_op tk body = normalize_key op2 ''continued''"
    by (simp add: parse_op_def Let_def op0_def op1_def op2_def)
  have "map_of op1 k =
      (if k \<in> set [''offset'', ''length''] then map_of op0 k
       else (case map_of (parse_kv body) k of Some v \<Rightarrow> Some (PStr v) | None \<Rightarrow> map_of op0 k))"
    unfolding op1_def by (rule map_of_copy_attrs [OF distinct_parse_kv])
  then have op1: "map_of op1 k = Some (PStr v)"
    using assms by (simp add: dict_get_def)
  have dk: "distinct style_keys" and nc: "''continued'' \<notin> set style_keys"
    by (simp_all add: style_keys_def)
  have op2: "map_of op2 k =
      Some (PStr (if tk = ''textStyle'' \<and> k \<in> set style_keys
                  then (if parse_bool v then ''true'' else ''false'') else v))"
    using op1 by (simp add: op2_def map_of_normalize_keys [OF dk] normalized_def parse_bool_val_def)
  show ?thesis
  proof (cases "k = ''continued''")
    case True
    with op2 nc show ?thesis
      by (simp add: op dict_get_def map_of_normalize_key' normalized_def parse_bool_val_def)
  next
    case False
    with op2 show ?thesis
      by (simp add: op dict_get_def map_of_normalize_key')
  qed
qed

text \<open>
  C9, as the code has it. For an attribute \<open>k\<close> of a parsed token with (stripped) value
  \<open>v\<close>, other than \<open>offset\<close> and \<open>length\<close>: the key \<open>continued\<close> of a token of any kind, and
  the keys \<open>bold\<close>, \<open>italic\<close>, \<open>underline\<close>, \<open>superscript\<close>, \<open>subscript\<close> of a \<open>textStyle\<close> token,
  are stored as \<open>''true''\<close> when \<open>parse_bool v\<close> holds (the value, stripped and in lower case,
  is one of 1, true, yes, y) and as \<open>''false''\<close> otherwise (so for 0, no, false). Every
  other attribute, the five style keys of a token of another kind among them, is stored
  as it was written.
\<close>

theorem C9_boolean_attributes:
  assumes "dict_get (parse_kv body) k = Some v"
    and "k \<notin> set [''offset'', ''length'']"
  shows "dict_get (parse_op tk body) k =
     Some (PStr (if k = ''continued'' \<or> (tk = ''textStyle'' \<and> k \<in> set style_keys)
                 then (if parse_bool v then ''true'' else ''false'') else v))"
  using assms by (rule parse_op_lookup)

theorem C9_boolean_attributes_witness:
  "dict_get (parse_op ''textStyle'' ''offset:1;length:2;bold:YES;italic:0;'') ''bold'' = Some (PStr ''true'')
   \<and> dict_get (parse_op ''textStyle'' ''offset:1;length:2;bold:YES;italic:0;'') ''italic'' = Some (PStr ''false'')"
proof -
  have b: "dict_get (parse_kv ''offset:1;length:2;bold:YES;italic:0;'') ''bold'' = Some ''YES''"
    and i: "dict_get (parse_kv ''offset:1;length:2;bold:YES;italic:0;'') ''italic'' = Some ''0''"
    by code_simp+
  have nb: "''bold'' \<notin> set [''offset'', ''length'']" and ni: "''italic'' \<notin> set [''offset'', ''length'']"
    by simp_all
  have e: "parse_bool ''YES''" "\<not> parse_bool ''0''"
    by code_simp+
  from C9_boolean_attributes [OF b nb, of "''textStyle''"]
       C9_boolean_attributes [OF i ni, of "''textStyle''"] e
  show ?thesis by (simp add: style_keys_def)
qed

text \<open>
  C9 as stated fails for a token that is not a \<open>textStyle\<close>: the attribute \<open>bold\<close> of a
  \<open>person\<close> token written \<open>YES\<close> stays \<open>YES\<close>.
\<close>

theorem C9_person_bold_counterexample:
  "dict_get (hd (parse_custom_ops ''person {offset:0;length:2;bold:YES;}'')) ''bold''
     = Some (PStr ''YES'')"
  by code_simp

section \<open>Facts about elements\<close>

lemma set_text_sel [simp]:
  "tag (set_text e x) = tag e" "attrib (set_text e x) = attrib e" "etext (set_text e x) = x"
  "tail (set_text e x) = tail e" "kids (set_text e x) = kids e"
  by (cases e; simp)+

lemma set_tail_sel [simp]:
  "tag (set_tail e x) = tag e" "attrib (set_tail e x) = attrib e" "etext (set_tail e x) = etext e"
  "tail (set_tail e x) = x" "kids (set_tail e x) = kids e"
  by (cases e; simp)+

lemma set_kids_sel [simp]:
  "tag (set_kids e ks) = tag e" "attrib (set_kids e ks) = attrib e" "etext (set_kids e ks) = etext e"
  "tail (set_kids e ks) = tail e" "kids (set_kids e ks) = ks"
  by (cases e; simp)+

lemma set_attr_sel [simp]:
  "tag (set_attr e k v) = tag e" "attrib (set_attr e k v) = dict_set (attrib e) k v"
  "etext (set_attr e k v) = etext e" "tail (set_attr e k v) = tail e" "kids (set_attr e k v) = kids e"
  by (cases e; simp)+

lemma new_elem_sel [simp]:
  "tag (new_elem t) = t" "attrib (new_elem t) = []" "etext (new_elem t) = None"
  "tail (new_elem t) = None" "kids (new_elem t) = []"
  by (simp_all add: new_elem_def)

lemma append_kid_sel [simp]:
  "tag (append_kid e c) = tag e" "attrib (append_kid e c) = attrib e"
  "etext (append_kid e c) = etext e" "tail (append_kid e c) = tail e"
  "kids (append_kid e c) = kids e @ [c]"
  by (simp_all add: append_kid_def)

lemma foldl_append_kid_sel [simp]:
  "tag (foldl append_kid e cs) = tag e" "attrib (foldl append_kid e cs) = attrib e"
  "etext (foldl append_kid e cs) = etext e" "tail (foldl append_kid e cs) = tail e"
  "kids (foldl append_kid e cs) = kids e @ cs"
  by (induction cs arbitrary: e) simp_all

lemma append_text_sel [simp]:
  "tag (append_text e s) = tag e" "attrib (append_text e s) = attrib e" "tail (append_text e s) = tail e"
  by (simp_all add: append_text_def)

lemma truthy_simps [simp]:
  "truthy None = False" "truthy (Some s) = (s \<noteq> [])"
  by (simp_all add: truthy_def)

lemma or_empty_simps [simp]:
  "or_empty None = []" "or_empty (Some s) = s"
  by (simp_all add: or_empty_def)

section \<open>The parts of a regularised alternation pair\<close>

definition built_elem :: "built \<Rightarrow> elem" where
  "built_elem b = (case b of Plain el \<Rightarrow> el | Tup lead el trail \<Rightarrow> el)"

lemma built_elem_maybe_wrap [simp]:
  "built_elem (maybe_wrap_with_edge_whitespace (lead, el, trail) wrap_el) = wrap_el"
  by (simp add: maybe_wrap_with_edge_whitespace_def built_elem_def)

lemma built_elem_Plain [simp]: "built_elem (Plain el) = el"
  by (simp add: built_elem_def)

lemma set_text_new_elem: "set_text (new_elem t) x = Elem t [] x None []"
  by (simp add: new_elem_def)

lemma populate_tag: "populate_target_with_nodes target ns = (lead, el, trail) \<Longrightarrow> tag el = tag target"
  by (auto simp: populate_target_with_nodes_def Let_def split: prod.splits if_splits)

lemma filter_elem_filter:
  "filter is_elem (filter (\<lambda>n. case n of Str x \<Rightarrow> P x | El e \<Rightarrow> True) ns) = filter is_elem ns"
  by (induction ns) (auto simp: is_elem_def split: node.splits)

lemma filter_elem_idem: "filter is_elem (filter is_elem ns) = filter is_elem ns"
  by simp

lemma regularised_element_elems:
  "regularised_element w witness_text (filter is_elem inner_nodes)
   = (case py_or (dict_get (attrs w) ''regularised'') (dict_get (attrs w) ''reg'') of
        Some reg \<Rightarrow> regularised_element w witness_text inner_nodes
      | None \<Rightarrow> regularised_element w witness_text (filter is_elem inner_nodes))"
  by (cases "py_or (dict_get (attrs w) ''regularised'') (dict_get (attrs w) ''reg'')")
     (simp_all only: regularised_element_def Let_def filter_elem_filter filter_elem_idem option.case)

lemma regularised_element_parts:
  "(let el = built_elem (regularised_element w witness_text inner_nodes);
        orig_attr = py_or (dict_get (attrs w) ''original'') (dict_get (attrs w) ''orig'');
        reg_attr = py_or (dict_get (attrs w) ''regularised'') (dict_get (attrs w) ''reg'')
    in tag el = ''choice'' \<and> map tag (kids el) = [''orig'', ''reg'']
       \<and> kids el ! 0 = Elem ''orig'' [] (Some (case orig_attr of Some x \<Rightarrow> x | None \<Rightarrow> [])) None []
       \<and> (case reg_attr of
            Some reg \<Rightarrow>
              etext (kids el ! 1) = Some reg
              \<and> regularised_element w witness_text inner_nodes
                  = regularised_element w witness_text (filter is_elem inner_nodes)
          | None \<Rightarrow>
              kids el ! 1 = fst (snd (populate_target_with_nodes (new_elem ''reg'') inner_nodes))))"
proof -
  have alt: "py_or (dict_get (attrs w) ''original'') (dict_get (attrs w) ''orig'') = None
      \<Longrightarrow> dict_get_default (attrs w) ''original'' [] = []"
    by (auto simp: py_or_def dict_get_def dict_get_default_def split: option.splits if_splits)
  have inv: "\<And>reg. py_or (dict_get (attrs w) ''regularised'') (dict_get (attrs w) ''reg'') = Some reg
      \<Longrightarrow> regularised_element w witness_text inner_nodes
          = regularised_element w witness_text (filter is_elem inner_nodes)"
    by (simp add: regularised_element_elems)
  show ?thesis
    using alt inv
    by (cases "py_or (dict_get (attrs w) ''original'') (dict_get (attrs w) ''orig'')";
        cases "py_or (dict_get (attrs w) ''regularised'') (dict_get (attrs w) ''reg'')")
       (auto simp: regularised_element_def Let_def choice_elem_def set_text_new_elem
          dest: populate_tag split: prod.splits)
qed

lemma build_wrapper_regularised:
  "kind (ws ! idx) = ''regularised'' \<Longrightarrow>
   build_wrapper_element text ws idx inner_nodes
     = regularised_element (ws ! idx) (py_slice text (offset (ws ! idx)) (end_op (ws ! idx))) inner_nodes"
  by (simp add: build_wrapper_element_def Let_def)

section \<open>Text content of rendered nodes\<close>

text \<open>
  The text of an element in document order, as \<^verbatim>\<open>itertext()\<close> gives it: its own text, then
  for each child the child's text and the child's tail. Elements whose tag is in the list
  \<open>sk\<close> are passed over (their tail is not); with the empty list nothing is passed over.
\<close>

fun flat_text :: "string list \<Rightarrow> elem \<Rightarrow> string" where
  "flat_text sk (Elem t a x tq ks) =
     (if t \<in> set sk then []
      else or_empty x @ concat (map (\<lambda>k. flat_text sk k @ or_empty (tail k)) ks))"

definition kids_text :: "string list \<Rightarrow> elem list \<Rightarrow> string" where
  "kids_text sk ks = concat (map (\<lambda>k. flat_text sk k @ or_empty (tail k)) ks)"

definition node_text :: "string list \<Rightarrow> node \<Rightarrow> string" where
  "node_text sk n = (case n of Str s \<Rightarrow> s | El e \<Rightarrow> flat_text sk e @ or_empty (tail e))"

definition nodes_text :: "string list \<Rightarrow> node list \<Rightarrow> string" where
  "nodes_text sk ns = concat (map (node_text sk) ns)"

lemma flat_text_sel:
  "flat_text sk e = (if tag e \<in> set sk then [] else or_empty (etext e) @ kids_text sk (kids e))"
  by (cases e) (simp add: kids_text_def)

lemma kids_text_simps [simp]:
  "kids_text sk [] = []"
  "kids_text sk (k # ks) = flat_text sk k @ or_empty (tail k) @ kids_text sk ks"
  "kids_text sk (ks @ ks') = kids_text sk ks @ kids_text sk ks'"
  by (simp_all add: kids_text_def)

lemma nodes_text_simps [simp]:
  "nodes_text sk [] = []"
  "nodes_text sk (Str s # ns) = s @ nodes_text sk ns"
  "nodes_text sk (El e # ns) = flat_text sk e @ or_empty (tail e) @ nodes_text sk ns"
  "nodes_text sk (ns @ ns') = nodes_text sk ns @ nodes_text sk ns'"
  by (simp_all add: nodes_text_def node_text_def)

section \<open>The pass that wraps a choice in a persName\<close>

lemma pers_elem_sel [simp]:
  "tag (pers_elem w) = ''persName''" "etext (pers_elem w) = None"
  "tail (pers_elem w) = None" "kids (pers_elem w) = []"
  by (simp_all add: pers_elem_def set_if_present_def Let_def split: option.splits)

lemma flat_text_set_tail [simp]: "flat_text sk (set_tail e x) = flat_text sk e"
  by (simp add: flat_text_sel)

lemma wrap_in_children_text:
  assumes "''persName'' \<notin> set sk"
    and "\<And>k. k \<in> set ks \<Longrightarrow>
           flat_text sk (snd (wrap_choice_in_persname_in_element k p)) = flat_text sk k
           \<and> tail (snd (wrap_choice_in_persname_in_element k p)) = tail k"
  shows "kids_text sk (snd (wrap_choice_in_children ks p)) = kids_text sk ks"
  using assms(2)
proof (induction ks)
  case Nil
  show ?case by simp
next
  case (Cons child rest)
  obtain w1 r1 where r: "wrap_choice_in_children rest p = (w1, r1)"
    by (cases "wrap_choice_in_children rest p")
  obtain w2 c2 where c: "wrap_choice_in_persname_in_element child p = (w2, c2)"
    by (cases "wrap_choice_in_persname_in_element child p")
  from Cons have ih: "kids_text sk r1 = kids_text sk rest" using r by simp
  from Cons.prems [of child] c have q: "flat_text sk c2 = flat_text sk child" "tail c2 = tail child"
    by simp_all
  show ?case
    using assms(1) ih q r c
    by (simp add: flat_text_sel [of sk "set_kids (pers_elem p) [child]"])
qed

lemma wrap_in_element_text:
  assumes "''persName'' \<notin> set sk"
  shows "flat_text sk (snd (wrap_choice_in_persname_in_element e p)) = flat_text sk e
     \<and> tail (snd (wrap_choice_in_persname_in_element e p)) = tail e"
proof (induction e)
  case (Elem t a x tq ks)
  then have "kids_text sk (snd (wrap_choice_in_children ks p)) = kids_text sk ks"
    using wrap_in_children_text [OF assms, of ks p] by blast
  then show ?case
    by (auto simp: flat_text_sel split: prod.splits)
qed

lemma wrap_in_children_unchanged:
  assumes "\<And>k. k \<in> set ks \<Longrightarrow> \<not> fst (wrap_choice_in_persname_in_element k p)
             \<Longrightarrow> snd (wrap_choice_in_persname_in_element k p) = k"
  shows "\<not> fst (wrap_choice_in_children ks p) \<Longrightarrow> snd (wrap_choice_in_children ks p) = ks"
  using assms
proof (induction ks)
  case Nil
  show ?case by simp
next
  case (Cons child rest)
  obtain w1 r1 where r: "wrap_choice_in_children rest p = (w1, r1)"
    by (cases "wrap_choice_in_children rest p")
  obtain w2 c2 where c: "wrap_choice_in_persname_in_element child p = (w2, c2)"
    by (cases "wrap_choice_in_persname_in_element child p")
  from Cons.prems(1) r c have nw: "\<not> w1" and nc: "tag child \<noteq> ''persName'' \<longrightarrow> tag child \<noteq> ''choice''"
    by (auto split: if_splits)
  from Cons.IH Cons.prems(2) r nw have "r1 = rest" by simp
  with Cons.prems(1) r c show ?case
    by (auto split: if_splits)
qed

lemma wrap_in_element_unchanged:
  "\<not> fst (wrap_choice_in_persname_in_element e p) \<Longrightarrow> snd (wrap_choice_in_persname_in_element e p) = e"
proof (induction e)
  case (Elem t a x tq ks)
  show ?case
  proof (cases "t = ''persName''")
    case True
    then show ?thesis by simp
  next
    case False
    with Elem.prems have "\<not> fst (wrap_choice_in_children ks p)"
      by (simp split: prod.splits)
    with Elem.IH have "snd (wrap_choice_in_children ks p) = ks"
      using wrap_in_children_unchanged [of ks p] by blast
    with False show ?thesis by (auto split: prod.splits)
  qed
qed

lemma wrap_in_nodes_text:
  assumes "''persName'' \<notin> set sk"
  shows "nodes_text sk (snd (wrap_choice_in_nodes_list nodes p)) = nodes_text sk nodes"
proof (induction nodes)
  case Nil
  show ?case by simp
next
  case (Cons n rest)
  obtain w1 r1 where r: "wrap_choice_in_nodes_list rest p = (w1, r1)"
    by (cases "wrap_choice_in_nodes_list rest p")
  with Cons have ih: "nodes_text sk r1 = nodes_text sk rest" by simp
  show ?case
  proof (cases n)
    case (Str s)
    with r ih show ?thesis by simp
  next
    case (El e)
    obtain w2 c2 where c: "wrap_choice_in_persname_in_element e p = (w2, c2)"
      by (cases "wrap_choice_in_persname_in_element e p")
    with wrap_in_element_text [OF assms, of e p]
    have q: "flat_text sk c2 = flat_text sk e" "tail c2 = tail e" by simp_all
    show ?thesis
      using assms El r ih c q
      by (simp add: flat_text_sel [of sk "set_tail (set_kids (pers_elem p) [set_tail e None]) (tail e)"]
            flat_text_sel [of sk "set_kids (pers_elem p) [set_tail e None]"])
  qed
qed

lemma wrap_in_nodes_unchanged:
  "\<not> fst (wrap_choice_in_nodes_list nodes p) \<Longrightarrow> snd (wrap_choice_in_nodes_list nodes p) = nodes"
proof (induction nodes)
  case Nil
  show ?case by simp
next
  case (Cons n rest)
  obtain w1 r1 where r: "wrap_choice_in_nodes_list rest p = (w1, r1)"
    by (cases "wrap_choice_in_nodes_list rest p")
  show ?case
  proof (cases n)
    case (Str s)
    with Cons r show ?thesis by simp
  next
    case (El e)
    obtain w2 c2 where c: "wrap_choice_in_persname_in_element e p = (w2, c2)"
      by (cases "wrap_choice_in_persname_in_element e p")
    from Cons.prems El r c have nw: "\<not> w1"
      by (auto split: if_splits)
    with Cons.IH r have "r1 = rest" by simp
    with Cons.prems El r c show ?thesis
      by (auto split: if_splits)
  qed
qed

lemma wrap_for_person_once:
  "wrap_for_person p cs nodes =
     (if \<exists>c \<in> set cs. overlaps p c then snd (wrap_choice_in_nodes_list nodes p) else nodes)"
proof (induction cs)
  case Nil
  show ?case by simp
next
  case (Cons c cs)
  show ?case
  proof (cases "overlaps p c")
    case False
    with Cons show ?thesis by simp
  next
    case True
    obtain wrapped nodes' where w: "wrap_choice_in_nodes_list nodes p = (wrapped, nodes')"
      by (cases "wrap_choice_in_nodes_list nodes p")
    show ?thesis
    proof (cases wrapped)
      case True
      with \<open>overlaps p c\<close> w show ?thesis by simp
    next
      case False
      with w wrap_in_nodes_unchanged [of nodes p] have "nodes' = nodes" by simp
      with \<open>overlaps p c\<close> w False Cons show ?thesis by simp
    qed
  qed
qed

lemma marcus_nested:
  "build_inline_nodes_for_line ''Marcus''
     [\<lparr>kind = ''person'', offset = 0, length_op = 6, end_op = 6, attrs = [(''type'', ''human'')]\<rparr>,
      \<lparr>kind = ''abbrev'', offset = 1, length_op = 4, end_op = 5, attrs = [(''expansion'', ''Marc'')]\<rparr>]
   = [El (Elem ''persName'' [(''type'', ''human'')] (Some ''M'') None
           [Elem ''choice'' [] None (Some ''s'')
              [Elem ''abbr'' [] (Some ''arcu'') None [], Elem ''expan'' [] (Some ''Marc'') None []]])]"
  by code_simp

lemma marcus_siblings:
  "build_inline_nodes_for_line ''Marcus''
     [\<lparr>kind = ''person'', offset = 0, length_op = 4, end_op = 4, attrs = [(''type'', ''human'')]\<rparr>,
      \<lparr>kind = ''abbrev'', offset = 2, length_op = 4, end_op = 6, attrs = [(''expansion'', ''Marc'')]\<rparr>]
   = [El (Elem ''persName'' [(''type'', ''human'')] (Some ''Marc'') None []),
      El (Elem ''persName'' [(''type'', ''human'')] None None
           [Elem ''choice'' [] None None
              [Elem ''abbr'' [] (Some ''rcus'') None [], Elem ''expan'' [] (Some ''Marc'') None []]])]"
  by code_simp

lemma marcus_depth_first:
  "build_inline_nodes_for_line ''Marcus ab''
     [\<lparr>kind = ''person'', offset = 0, length_op = 4, end_op = 4, attrs = [(''type'', ''human'')]\<rparr>,
      \<lparr>kind = ''num'', offset = 2, length_op = 6, end_op = 8, attrs = []\<rparr>,
      \<lparr>kind = ''abbrev'', offset = 3, length_op = 3, end_op = 6, attrs = [(''expansion'', ''cius'')]\<rparr>]
   = [El (Elem ''persName'' [(''type'', ''human'')] (Some ''Marc'') None []),
      El (Elem ''num'' [] (Some ''r'') None
           [Elem ''persName'' [(''type'', ''human'')] None None
              [Elem ''choice'' [] None (Some '' a'')
                 [Elem ''abbr'' [] (Some ''cus'') None [], Elem ''expan'' [] (Some ''cius'') None []]]]),
      Str ''b'']"
  by code_simp

section \<open>Whitespace at the edges of a wrapper\<close>

definition inner_text :: "string list \<Rightarrow> elem \<Rightarrow> string" where
  \<comment> \<open>the text content inside an element, whatever its own tag\<close>
  "inner_text sk e = or_empty (etext e) @ kids_text sk (kids e)"

definition starts_with_space :: "string \<Rightarrow> bool" where
  "starts_with_space s = (s \<noteq> [] \<and> is_space (hd s))"

definition ends_with_space :: "string \<Rightarrow> bool" where
  "ends_with_space s = (s \<noteq> [] \<and> is_space (last s))"

lemma flat_text_inner: "flat_text sk e = (if tag e \<in> set sk then [] else inner_text sk e)"
  by (simp add: flat_text_sel inner_text_def)

lemma kids_text_snoc_tail:
  "ks \<noteq> [] \<Longrightarrow>
   kids_text sk (butlast ks @ [set_tail (last ks) (Some x)])
     = kids_text sk (butlast ks) @ flat_text sk (last ks) @ x"
  by simp

lemma kids_text_butlast:
  "ks \<noteq> [] \<Longrightarrow> kids_text sk ks = kids_text sk (butlast ks) @ flat_text sk (last ks) @ or_empty (tail (last ks))"
  using kids_text_simps(3) [of sk "butlast ks" "[last ks]"] by simp

lemma inner_text_append_text: "inner_text sk (append_text e s) = inner_text sk e @ s"
  by (cases "kids e = []")
     (auto simp: inner_text_def append_text_def kids_text_butlast [of "kids e"])

lemma inner_text_append_kid:
  "inner_text sk (append_kid e c) = inner_text sk e @ flat_text sk c @ or_empty (tail c)"
  by (simp add: inner_text_def)

lemma inner_text_insert_node: "inner_text sk (insert_node e n) = inner_text sk e @ nodes_text sk [n]"
  by (cases n) (simp_all add: insert_node_def inner_text_append_text inner_text_append_kid)

lemma inner_text_foldl_insert:
  "inner_text sk (foldl insert_node e ns) = inner_text sk e @ nodes_text sk ns"
proof (induction ns arbitrary: e)
  case Nil
  show ?case by simp
next
  case (Cons n ns)
  show ?case
    using Cons [of "insert_node e n"] inner_text_insert_node [of sk e n]
    by (cases n) simp_all
qed

lemma truthy_or_empty: "truthy x = (or_empty x \<noteq> [])"
  by (cases x) simp_all

lemma rstrip_split: "rstrip s @ rev (takeWhile is_space (rev s)) = s"
proof -
  have "rstrip s @ rev (takeWhile is_space (rev s))
        = rev (takeWhile is_space (rev s) @ dropWhile is_space (rev s))"
    by (simp only: rstrip_def rev_append)
  also have "\<dots> = s"
    by (simp only: takeWhile_dropWhile_id rev_rev_ident)
  finally show ?thesis .
qed

lemma rstrip_no_trailing: "\<not> ends_with_space (rstrip s)"
proof
  assume "ends_with_space (rstrip s)"
  then have ne: "dropWhile is_space (rev s) \<noteq> []"
    and sp: "is_space (last (rev (dropWhile is_space (rev s))))"
    by (simp_all add: ends_with_space_def rstrip_def)
  from sp ne have "is_space (hd (dropWhile is_space (rev s)))"
    by (simp add: last_rev)
  with hd_dropWhile [OF ne] show False by simp
qed

lemma rstrip_keeps_start: "\<not> starts_with_space s \<Longrightarrow> \<not> starts_with_space (rstrip s)"
proof -
  assume a: "\<not> starts_with_space s"
  show ?thesis
  proof (cases "rstrip s = []")
    case True
    then show ?thesis by (simp add: starts_with_space_def)
  next
    case False
    from rstrip_split [of s] False have "hd s = hd (rstrip s)" "s \<noteq> []"
      by (metis hd_append2, metis append_is_Nil_conv)
    with a False show ?thesis by (simp add: starts_with_space_def)
  qed
qed

lemma take_lead_props:
  assumes "take_lead tmp = (lead, tmp1)"
  shows "list_all is_space lead" "\<not> starts_with_space (or_empty (etext tmp1))"
    "kids tmp1 = kids tmp" "lead @ inner_text sk tmp1 = inner_text sk tmp"
proof -
  let ?t = "or_empty (etext tmp)"
  have "list_all is_space lead \<and> \<not> starts_with_space (or_empty (etext tmp1))
    \<and> kids tmp1 = kids tmp \<and> lead @ inner_text sk tmp1 = inner_text sk tmp"
  proof (cases "?t \<noteq> [] \<and> is_space (hd ?t)")
    case True
    with assms have l: "lead = takeWhile is_space ?t"
      and t: "tmp1 = set_text tmp (Some (dropWhile is_space ?t))"
      by (simp_all add: take_lead_def Let_def truthy_or_empty)
    have "list_all is_space lead"
      unfolding l list_all_iff using set_takeWhileD by fastforce
    moreover have "\<not> starts_with_space (or_empty (etext tmp1))"
      using hd_dropWhile [of is_space ?t] by (auto simp: t starts_with_space_def)
    moreover have "kids tmp1 = kids tmp" by (simp add: t)
    moreover have "lead @ dropWhile is_space ?t = ?t" by (simp add: l)
    then have "lead @ inner_text sk tmp1 = inner_text sk tmp"
      by (simp add: t inner_text_def)
    ultimately show ?thesis by simp
  next
    case False
    with assms have l: "lead = []" and t: "tmp1 = tmp"
      by (auto simp: take_lead_def Let_def truthy_or_empty)
    from False show ?thesis
      by (auto simp: l t starts_with_space_def)
  qed
  then show "list_all is_space lead" "\<not> starts_with_space (or_empty (etext tmp1))"
    "kids tmp1 = kids tmp" "lead @ inner_text sk tmp1 = inner_text sk tmp"
    by simp_all
qed

lemma split_trail_Some:
  assumes "split_trail x = Some (body, trail)"
  shows "body @ trail = or_empty x" "list_all is_space trail" "\<not> ends_with_space body"
    "\<not> starts_with_space (or_empty x) \<Longrightarrow> \<not> starts_with_space body"
proof -
  from assms have b: "body = rstrip (or_empty x)"
    and t: "trail = rev (takeWhile is_space (rev (or_empty x)))"
    by (auto simp: split_trail_def Let_def split: if_splits)
  show "body @ trail = or_empty x" by (simp add: b t rstrip_split)
  show "list_all is_space trail"
    unfolding t list_all_iff using set_takeWhileD by fastforce
  show "\<not> ends_with_space body" by (simp add: b rstrip_no_trailing)
  show "\<not> starts_with_space (or_empty x) \<Longrightarrow> \<not> starts_with_space body"
    by (simp add: b rstrip_keeps_start)
qed

lemma split_trail_None: "split_trail x = None \<Longrightarrow> \<not> ends_with_space (or_empty x)"
  by (auto simp: split_trail_def Let_def ends_with_space_def truthy_or_empty split: if_splits)

lemma take_trail_props:
  assumes "take_trail tmp = (trail, tmp2)"
  shows "list_all is_space trail"
    "\<not> starts_with_space (or_empty (etext tmp)) \<Longrightarrow> \<not> starts_with_space (or_empty (etext tmp2))"
    "kids tmp2 = [] \<Longrightarrow> \<not> ends_with_space (or_empty (etext tmp2))"
    "kids tmp2 \<noteq> [] \<Longrightarrow> \<not> ends_with_space (or_empty (tail (last (kids tmp2))))"
    "inner_text sk tmp2 @ trail = inner_text sk tmp"
proof -
  show "list_all is_space trail"
    using assms
    by (auto simp: take_trail_def split: if_splits option.splits dest: split_trail_Some(2))
  show "\<not> starts_with_space (or_empty (etext tmp)) \<Longrightarrow> \<not> starts_with_space (or_empty (etext tmp2))"
    using assms
    by (auto simp: take_trail_def split: if_splits option.splits dest: split_trail_Some(4))
  show "kids tmp2 = [] \<Longrightarrow> \<not> ends_with_space (or_empty (etext tmp2))"
    using assms
    by (auto simp: take_trail_def split: if_splits option.splits
        dest: split_trail_Some(3) split_trail_None)
  show "kids tmp2 \<noteq> [] \<Longrightarrow> \<not> ends_with_space (or_empty (tail (last (kids tmp2))))"
    using assms
    by (auto simp: take_trail_def split: if_splits option.splits
        dest: split_trail_Some(3) split_trail_None)
  show "inner_text sk tmp2 @ trail = inner_text sk tmp"
  proof (cases "kids tmp = []")
    case True
    with assms show ?thesis
      by (auto simp: take_trail_def inner_text_def split: option.splits dest: split_trail_Some(1))
  next
    case False
    note ne = this
    show ?thesis
    proof (cases "split_trail (tail (last (kids tmp)))")
      case None
      with assms ne show ?thesis by (simp add: take_trail_def)
    next
      case (Some bt)
      obtain body tr where bt: "bt = (body, tr)" by (cases bt)
      from assms ne Some bt have t: "trail = tr"
        and t2: "tmp2 = set_kids tmp (butlast (kids tmp) @ [set_tail (last (kids tmp)) (Some body)])"
        by (simp_all add: take_trail_def)
      from split_trail_Some(1) [OF Some [unfolded bt]]
      have "body @ tr = or_empty (tail (last (kids tmp)))" .
      then show ?thesis
        using ne by (simp add: t t2 inner_text_def kids_text_butlast [of "kids tmp"])
    qed
  qed
qed

lemma populate_props:
  assumes p: "populate_target_with_nodes target nodes = (lead, el, trail)"
    and fresh: "etext target = None" "kids target = []"
  shows "list_all is_space lead" "list_all is_space trail"
    "\<not> starts_with_space (or_empty (etext el))"
    "\<not> ends_with_space (if kids el = [] then or_empty (etext el)
                           else or_empty (tail (last (kids el))))"
    "lead @ inner_text sk el @ trail = inner_text sk (new_elem ''tmp'') @ nodes_text sk nodes"
    "tag el = tag target" "attrib el = attrib target" "tail el = tail target"
proof -
  define tmp0 where "tmp0 = foldl insert_node (new_elem ''tmp'') nodes"
  obtain l1 tmp1 where tl: "take_lead tmp0 = (l1, tmp1)" by (cases "take_lead tmp0")
  obtain t2 tmp2 where tt: "take_trail tmp1 = (t2, tmp2)" by (cases "take_trail tmp1")
  from p tl tt have lead: "lead = l1" and trail: "trail = t2"
    and el: "el = foldl append_kid
                (if truthy (etext tmp2)
                 then set_text target (Some (or_empty (etext target) @ or_empty (etext tmp2)))
                 else target) (kids tmp2)"
    by (simp_all add: populate_target_with_nodes_def Let_def tmp0_def)
  have tx: "or_empty (etext el) = or_empty (etext tmp2)" and ks: "kids el = kids tmp2"
    using fresh by (auto simp: el truthy_or_empty)
  show "list_all is_space lead" using take_lead_props(1) [OF tl] lead by simp
  show "list_all is_space trail" using take_trail_props(1) [OF tt] trail by simp
  show "\<not> starts_with_space (or_empty (etext el))"
    using take_trail_props(2) [OF tt] take_lead_props(2) [OF tl] tx by simp
  show "\<not> ends_with_space (if kids el = [] then or_empty (etext el)
                           else or_empty (tail (last (kids el))))"
    using take_trail_props(3,4) [OF tt] tx ks by simp
  have "inner_text sk el = inner_text sk tmp2"
    by (simp add: inner_text_def tx ks)
  then show "lead @ inner_text sk el @ trail = inner_text sk (new_elem ''tmp'') @ nodes_text sk nodes"
    using take_trail_props(5) [OF tt, of sk] take_lead_props(4) [OF tl, of sk]
      inner_text_foldl_insert [of sk "new_elem ''tmp''" nodes]
    by (simp add: lead trail tmp0_def)
  show "tag el = tag target" "attrib el = attrib target" "tail el = tail target"
    by (simp_all add: el)
qed

lemma inner_text_new_elem [simp]: "inner_text sk (new_elem t) = []"
  by (simp add: inner_text_def)

lemma hoisting_example:
  "build_inline_nodes_for_line ''ab cd ef''
     [\<lparr>kind = ''num'', offset = 2, length_op = 4, end_op = 6, attrs = []\<rparr>]
   = [Str ''ab'', Str '' '', El (Elem ''num'' [] (Some ''cd'') None []), Str '' '', Str ''ef'']"
  by code_simp

section \<open>The containment tree\<close>

function descendants :: "span_op list \<Rightarrow> nat \<Rightarrow> nat list" where
  \<comment> \<open>the wrappers below wrapper i in the tree, through the \<^verbatim>\<open>children\<close> lists\<close>
  "descendants ws i = concat (map (\<lambda>c. c # descendants ws c) (children_of ws i))"
  by pat_completeness auto
termination
  by (relation "measure (\<lambda>(ws, i). length ws - i)") (auto dest: children_of_bounds)

declare descendants.simps [simp del]

lemma find_rev_upt_Some:
  "find P (rev [0..<n]) = Some k \<Longrightarrow> k < n \<and> P k \<and> (\<forall>m. k < m \<and> m < n \<longrightarrow> \<not> P m)"
proof (induction n)
  case 0
  then show ?case by simp
next
  case (Suc n)
  show ?case
  proof (cases "P n")
    case True
    with Suc.prems show ?thesis by auto
  next
    case False
    with Suc.prems have "find P (rev [0..<n]) = Some k" by simp
    from Suc.IH [OF this] False show ?thesis
      by (auto simp: less_Suc_eq)
  qed
qed

lemma find_rev_upt_None: "find P (rev [0..<n]) = None \<Longrightarrow> m < n \<Longrightarrow> \<not> P m"
  by (induction n) (auto simp: less_Suc_eq split: if_splits)

lemma find_parent_nearest:
  assumes "find_parent ws j = Some k"
  shows "k < j" "encloses (ws ! k) (ws ! j)" "\<And>m. k < m \<Longrightarrow> m < j \<Longrightarrow> \<not> encloses (ws ! m) (ws ! j)"
  using find_rev_upt_Some [OF assms [unfolded find_parent_def]] by auto

lemma find_parent_exists:
  assumes "i < j" "encloses (ws ! i) (ws ! j)"
  shows "\<exists>k. find_parent ws j = Some k \<and> i \<le> k"
proof (cases "find_parent ws j")
  case None
  from find_rev_upt_None [OF None [unfolded find_parent_def] assms(1)] assms(2)
  show ?thesis by simp
next
  case (Some k)
  from find_parent_nearest(3) [OF Some, of i] assms have "\<not> k < i" by blast
  with Some show ?thesis by simp
qed

lemma tree_upto_child:
  "j < n \<Longrightarrow> n \<le> length ws \<Longrightarrow> find_parent ws j = Some k \<Longrightarrow> j \<in> set (fst (tree_upto ws n) ! k)"
proof (induction n)
  case 0
  then show ?case by simp
next
  case (Suc n)
  obtain ch rs where st: "tree_upto ws n = (ch, rs)" by (cases "tree_upto ws n")
  have len: "length ch = length ws" using tree_upto_length [of ws n] st by simp
  from find_parent_less [OF Suc.prems(3)] Suc.prems have k: "k < length ws" by simp
  show ?case
  proof (cases "j = n")
    case True
    with Suc.prems(3) st len k show ?thesis
      by (simp add: tree_upto_Suc tree_step_def)
  next
    case False
    with Suc have old: "j \<in> set (ch ! k)" using st by simp
    show ?thesis
    proof (cases "find_parent ws n")
      case None
      with old st show ?thesis by (simp add: tree_upto_Suc tree_step_def)
    next
      case (Some q)
      with old st len k show ?thesis
        by (cases "q = k") (simp_all add: tree_upto_Suc tree_step_def)
    qed
  qed
qed

lemma children_of_parent:
  "j < length ws \<Longrightarrow> find_parent ws j = Some k \<Longrightarrow> j \<in> set (children_of ws k)"
  using tree_upto_child [of j "length ws" ws k] find_parent_less [of ws j k]
  by (simp add: children_of_def build_tree_def Let_def tree_upto_length)

lemma descendants_child: "c \<in> set (children_of ws i) \<Longrightarrow> c \<in> set (descendants ws i)"
  by (subst descendants.simps) auto

lemma descendants_trans:
  "c \<in> set (children_of ws i) \<Longrightarrow> d \<in> set (descendants ws c) \<Longrightarrow> d \<in> set (descendants ws i)"
  by (subst descendants.simps) auto

lemma descendants_transitive:
  "k \<in> set (descendants ws i) \<Longrightarrow> j \<in> set (descendants ws k) \<Longrightarrow> j \<in> set (descendants ws i)"
proof (induction ws i rule: descendants.induct)
  case (1 ws i)
  from "1.prems"(1) obtain c where c: "c \<in> set (children_of ws i)"
    and k: "k = c \<or> k \<in> set (descendants ws c)"
    by (subst (asm) descendants.simps) auto
  from k have "j \<in> set (descendants ws c)"
  proof
    assume "k = c"
    with "1.prems"(2) show ?thesis by simp
  next
    assume "k \<in> set (descendants ws c)"
    from "1.IH" [OF c this "1.prems"(2)] show ?thesis .
  qed
  with c show ?case by (rule descendants_trans)
qed

lemma enclosed_is_descendant:
  assumes "j < length ws"
    and "i < j"
    and "encloses (ws ! i) (ws ! j)"
    and "\<forall>k. i < k \<and> k < j \<and> encloses (ws ! k) (ws ! j) \<longrightarrow> encloses (ws ! i) (ws ! k)"
  shows "j \<in> set (descendants ws i)"
  using assms
proof (induction j rule: less_induct)
  case (less j)
  from find_parent_exists [OF less.prems(2,3)]
  obtain k where fp: "find_parent ws j = Some k" and ik: "i \<le> k" by blast
  note near = find_parent_nearest [OF fp]
  from children_of_parent [OF less.prems(1) fp] have ch: "j \<in> set (children_of ws k)" .
  show ?case
  proof (cases "k = i")
    case True
    with ch show ?thesis by (simp add: descendants_child)
  next
    case False
    with ik have ik': "i < k" by simp
    from less.prems(4) ik' near(1,2) have e: "encloses (ws ! i) (ws ! k)" by blast
    have tr: "\<forall>m. i < m \<and> m < k \<and> encloses (ws ! m) (ws ! k) \<longrightarrow> encloses (ws ! i) (ws ! m)"
    proof (intro allI impI)
      fix m assume m: "i < m \<and> m < k \<and> encloses (ws ! m) (ws ! k)"
      with near(2) have "encloses (ws ! m) (ws ! j)"
        by (auto simp: encloses_def)
      with less.prems(4) m near(1) show "encloses (ws ! i) (ws ! m)" by auto
    qed
    from near(1) less.prems(1) have "k < length ws" by simp
    from less.IH [OF near(1) this ik' e tr] have "k \<in> set (descendants ws i)" .
    then show ?thesis
      using descendants_child [OF ch] by (rule descendants_transitive)
  qed
qed

lemma descendants_greater: "d \<in> set (descendants ws i) \<Longrightarrow> i < d"
proof (induction ws i rule: descendants.induct)
  case (1 ws i)
  from "1.prems" obtain c where c: "c \<in> set (children_of ws i)"
    and d: "d = c \<or> d \<in> set (descendants ws c)"
    by (subst (asm) descendants.simps) auto
  from children_of_bounds [OF c] have "i < c" by simp
  with d "1.IH" [OF c] show ?case by auto
qed

lemma wrappers_mono:
  assumes "i \<le> j" "j < length (wrappers ops)"
  shows "sort_key_of (wrappers ops ! i) \<le> sort_key_of (wrappers ops ! j)"
proof -
  have "sorted (map sort_key_of (wrappers ops))"
    by (simp add: wrappers_def sorted_sort_key)
  from sorted_nth_mono [OF this, of i j] assms show ?thesis by simp
qed

lemma set_wrappers:
  "set (wrappers ops) = {w \<in> set ops. length_op w > 0 \<and> kind w \<noteq> ''textStyle''}"
  by (auto simp: wrappers_def of_kind_def choice_ops_def other_ops_def known_kinds_def)

lemma enclosing_sorted_first:
  assumes "i < length (wrappers ops)" "j < length (wrappers ops)" "i \<noteq> j"
    and "encloses (wrappers ops ! i) (wrappers ops ! j)"
    and "\<not> encloses (wrappers ops ! j) (wrappers ops ! i)"
  shows "i < j"
proof (rule ccontr)
  assume "\<not> i < j"
  with assms(3) have "j \<le> i" by simp
  from wrappers_mono [OF this assms(1)] assms(4,5) show False
    by (auto simp: sort_key_of_def encloses_def)
qed




section \<open>Where the element of a wrapper ends up\<close>

fun occurs_in :: "elem \<Rightarrow> elem \<Rightarrow> bool" where
  \<comment> \<open>\<open>d\<close> is a child, or a child of a child, ..., of the element; tails are not compared,
      the code sets them when it appends text after an element\<close>
  "occurs_in d (Elem t a x tq ks) = (\<exists>k \<in> set ks. set_tail k None = set_tail d None \<or> occurs_in d k)"

definition nodes_have :: "elem \<Rightarrow> node list \<Rightarrow> bool" where
  \<comment> \<open>\<open>d\<close> is an element of the node sequence or occurs in one\<close>
  "nodes_have d ns =
     (\<exists>n \<in> set ns. case n of El e \<Rightarrow> set_tail e None = set_tail d None \<or> occurs_in d e
                              | Str s \<Rightarrow> False)"

definition wrapper_elem :: "string \<Rightarrow> span_op list \<Rightarrow> span_op list \<Rightarrow> nat \<Rightarrow> elem" where
  \<comment> \<open>the element built for wrapper \<open>c\<close>: its inner span rendered, then materialised\<close>
  "wrapper_elem text style_ops ws c =
     built_elem (build_wrapper_element text ws c
       (render_span text style_ops ws (offset (ws ! c)) (end_op (ws ! c)) (children_of ws c)))"

definition kids_mt :: "elem \<Rightarrow> elem list" where
  "kids_mt e = map (\<lambda>k. set_tail k None) (kids e)"

definition elems_of :: "node list \<Rightarrow> elem list" where
  "elems_of ns = concat (map (\<lambda>n. case n of El e \<Rightarrow> [e] | Str s \<Rightarrow> []) ns)"

lemma set_tail_twice [simp]: "set_tail (set_tail e x) y = set_tail e y"
  by (cases e) simp

lemma occurs_in_sel:
  "occurs_in d e = (\<exists>k \<in> set (kids e). set_tail k None = set_tail d None \<or> occurs_in d k)"
  by (cases e) simp

lemma occurs_in_set_tail [simp]: "occurs_in d (set_tail e x) = occurs_in d e"
  by (cases e) simp

lemma occurs_in_tail_arg [simp]: "occurs_in (set_tail d x) e = occurs_in d e"
proof (induction e)
  case (Elem t a y tq ks)
  then show ?case by simp
qed

lemma occurs_in_kids_mt:
  "occurs_in d e = (\<exists>k \<in> set (kids_mt e). k = set_tail d None \<or> occurs_in d k)"
  by (cases e) (auto simp: kids_mt_def)

lemma occurs_in_cong_kids: "kids_mt e = kids_mt e' \<Longrightarrow> occurs_in d e = occurs_in d e'"
  by (simp add: occurs_in_kids_mt [of d e] occurs_in_kids_mt [of d e'])

lemma kids_mt_simps [simp]:
  "kids_mt (new_elem t) = []"
  "kids_mt (set_text e x) = kids_mt e"
  "kids_mt (set_tail e y) = kids_mt e"
  "kids_mt (set_attr e k v) = kids_mt e"
  "kids_mt (append_kid e c) = kids_mt e @ [set_tail c None]"
  "kids_mt (foldl append_kid e cs) = kids_mt e @ map (\<lambda>k. set_tail k None) cs"
  by (simp_all add: kids_mt_def)

lemma kids_mt_last_tail:
  "kids e \<noteq> [] \<Longrightarrow> kids_mt (set_kids e (butlast (kids e) @ [set_tail (last (kids e)) x])) = kids_mt e"
proof -
  assume ne: "kids e \<noteq> []"
  then have "kids e = butlast (kids e) @ [last (kids e)]" by simp
  then have "map (\<lambda>k. set_tail k None) (kids e)
      = map (\<lambda>k. set_tail k None) (butlast (kids e)) @ [set_tail (last (kids e)) None]"
    by (metis list.simps(8,9) map_append)
  then show ?thesis by (simp add: kids_mt_def)
qed

lemma kids_mt_append_text [simp]: "kids_mt (append_text e s) = kids_mt e"
  by (simp add: append_text_def kids_mt_last_tail)

lemma elems_of_simps [simp]:
  "elems_of [] = []" "elems_of (Str s # ns) = elems_of ns" "elems_of (El e # ns) = e # elems_of ns"
  "elems_of (ns @ ns') = elems_of ns @ elems_of ns'"
  by (simp_all add: elems_of_def)

lemma insert_node_simps [simp]:
  "insert_node tmp (Str s) = append_text tmp s" "insert_node tmp (El e) = append_kid tmp e"
  by (simp_all add: insert_node_def)

lemma kids_mt_foldl_insert:
  "kids_mt (foldl insert_node e ns) = kids_mt e @ map (\<lambda>k. set_tail k None) (elems_of ns)"
proof (induction ns arbitrary: e)
  case Nil
  show ?case by simp
next
  case (Cons n ns)
  show ?case by (cases n) (simp_all add: Cons)
qed

lemma kids_mt_take_lead: "take_lead tmp = (lead, tmp1) \<Longrightarrow> kids_mt tmp1 = kids_mt tmp"
  by (auto simp: take_lead_def Let_def split: if_splits)

lemma kids_mt_take_trail: "take_trail tmp = (trail, tmp2) \<Longrightarrow> kids_mt tmp2 = kids_mt tmp"
  by (auto simp: take_trail_def kids_mt_last_tail split: if_splits option.splits)

lemma populate_kids_mt:
  assumes "populate_target_with_nodes target nodes = (lead, el, trail)"
  shows "kids_mt el = kids_mt target @ map (\<lambda>k. set_tail k None) (elems_of nodes)"
proof -
  obtain l1 tmp1 where tl: "take_lead (foldl insert_node (new_elem ''tmp'') nodes) = (l1, tmp1)"
    by (cases "take_lead (foldl insert_node (new_elem ''tmp'') nodes)")
  obtain t2 tmp2 where tt: "take_trail tmp1 = (t2, tmp2)" by (cases "take_trail tmp1")
  from assms tl tt
  have "kids_mt el = kids_mt target @ kids_mt tmp2"
    by (auto simp: populate_target_with_nodes_def Let_def kids_mt_def)
  with kids_mt_take_trail [OF tt] kids_mt_take_lead [OF tl] show ?thesis
    by (simp add: kids_mt_foldl_insert)
qed

lemma populate_occurs:
  assumes "populate_target_with_nodes target nodes = (lead, el, trail)"
    and "e \<in> set (elems_of nodes)"
  shows "occurs_in e el"
  using assms(2) by (subst occurs_in_kids_mt) (auto simp: populate_kids_mt [OF assms(1)])

lemma occurs_in_kid: "k \<in> set (kids e) \<Longrightarrow> occurs_in d k \<Longrightarrow> occurs_in d e"
  by (cases e) auto

lemma occurs_in_more_kids:
  "occurs_in d e \<Longrightarrow> set (kids_mt e) \<subseteq> set (kids_mt e') \<Longrightarrow> occurs_in d e'"
  by (subst occurs_in_kids_mt, subst (asm) occurs_in_kids_mt) blast

lemma elems_of_filter_elem: "elems_of (filter is_elem ns) = elems_of ns"
  by (induction ns) (auto simp: is_elem_def elems_of_def split: node.splits)

lemma elems_of_filter_str:
  "elems_of (filter (\<lambda>n. case n of Str x \<Rightarrow> P x | El e \<Rightarrow> True) ns) = elems_of ns"
  by (induction ns) (auto simp: elems_of_def split: node.splits)

lemma simple_element_occurs:
  "e \<in> set (elems_of inner) \<Longrightarrow> occurs_in e (built_elem (simple_element el inner))"
  by (cases "populate_target_with_nodes el inner")
     (auto simp: simple_element_def dest: populate_occurs)

lemma place_kids_subset:
  "set (kids_mt el) \<subseteq> set (kids_mt (foldl (\<lambda>el attr. case dict_get d attr of
                                 Some v \<Rightarrow> append_kid el (set_text (new_elem attr) (Some v))
                               | None \<Rightarrow> el) el as))"
proof (induction as arbitrary: el)
  case Nil
  show ?case by simp
next
  case (Cons a as)
  show ?case
  proof (cases "dict_get d a")
    case None
    with Cons [of el] show ?thesis by simp
  next
    case (Some v)
    with Cons [of "append_kid el (set_text (new_elem a) (Some v))"] show ?thesis by auto
  qed
qed

lemma place_element_occurs:
  "e \<in> set (elems_of inner) \<Longrightarrow> occurs_in e (built_elem (place_element w inner))"
proof -
  assume e: "e \<in> set (elems_of inner)"
  obtain lead el trail where p: "populate_target_with_nodes (new_elem ''placeName'') inner = (lead, el, trail)"
    by (cases "populate_target_with_nodes (new_elem ''placeName'') inner")
  from populate_occurs [OF p e] have "occurs_in e el" .
  then have "occurs_in e (foldl (\<lambda>el attr. case dict_get (attrs w) attr of
                                 Some v \<Rightarrow> append_kid el (set_text (new_elem attr) (Some v))
                               | None \<Rightarrow> el)
               el [''country'', ''region'', ''settlement'', ''district''])"
    using place_kids_subset by (rule occurs_in_more_kids)
  then show ?thesis
    by (simp only: place_element_def p prod.case built_elem_maybe_wrap)
qed

lemma witness_choice_occurs:
  "e \<in> set (elems_of inner) \<Longrightarrow>
   occurs_in e (built_elem (witness_choice_element w a_tag b_tag alt_key inner))"
proof -
  assume e: "e \<in> set (elems_of inner)"
  obtain lead el trail where p: "populate_target_with_nodes (new_elem a_tag) inner = (lead, el, trail)"
    by (cases "populate_target_with_nodes (new_elem a_tag) inner")
  from populate_occurs [OF p e] have "occurs_in e el" .
  then show ?thesis
    by (simp add: witness_choice_element_def Let_def p choice_elem_def)
qed

lemma regularised_occurs:
  "e \<in> set (elems_of inner) \<Longrightarrow> occurs_in e (built_elem (regularised_element w wt inner))"
proof -
  assume e: "e \<in> set (elems_of inner)"
  let ?ec = "filter is_elem (filter (\<lambda>n. case n of Str x \<Rightarrow> strip x \<noteq> strip wt | El e \<Rightarrow> True) inner)"
  have ec: "elems_of ?ec = elems_of inner"
    by (simp only: elems_of_filter_elem elems_of_filter_str)
  show ?thesis
  proof (cases "py_or (dict_get (attrs w) ''regularised'') (dict_get (attrs w) ''reg'')")
    case None
    obtain lead el trail where p: "populate_target_with_nodes (new_elem ''reg'') inner = (lead, el, trail)"
      by (cases "populate_target_with_nodes (new_elem ''reg'') inner")
    from populate_occurs [OF p e] have "occurs_in e el" .
    with None show ?thesis
      by (simp add: regularised_element_def Let_def p choice_elem_def)
  next
    case (Some reg)
    from e ec have ne: "?ec \<noteq> []" by auto
    obtain lead el trail where p: "populate_target_with_nodes (new_elem ''tmp'') ?ec = (lead, el, trail)"
      by (cases "populate_target_with_nodes (new_elem ''tmp'') ?ec")
    from e ec have "e \<in> set (elems_of ?ec)" by simp
    from populate_occurs [OF p this] have "occurs_in e el" .
    then have "occurs_in e (foldl append_kid (set_text (new_elem ''reg'') (Some reg)) (kids el))"
      by (rule occurs_in_more_kids) (simp add: kids_mt_def)
    with Some ne show ?thesis
      by (simp only: regularised_element_def Let_def p option.case if_False prod.case
            built_elem_maybe_wrap choice_elem_def occurs_in.simps)
         simp
  qed
qed

lemma build_wrapper_occurs:
  "e \<in> set (elems_of inner) \<Longrightarrow> occurs_in e (built_elem (build_wrapper_element text ws idx inner))"
  by (simp add: build_wrapper_element_def Let_def simple_element_occurs place_element_occurs
      witness_choice_occurs regularised_occurs)

lemma built_elem_Tup [simp]: "built_elem (Tup lead el trail) = el"
  by (simp add: built_elem_def)

lemma emit_built_has: "El (built_elem b) \<in> set (emit_built b)"
  by (cases b) (simp_all add: emit_built_def)

lemma wrapper_step_fst:
  "set (fst (wrapper_step tx so ws c inner (out, cur)))
     \<supseteq> set out \<union> {El (built_elem (build_wrapper_element tx ws c inner))}"
  using emit_built_has [of "build_wrapper_element tx ws c inner"]
  by (auto simp: wrapper_step_def Let_def)

lemma fold_wrapper_step_keeps:
  "n \<in> set out \<Longrightarrow> n \<in> set (fst (fold (\<lambda>c. wrapper_step tx so ws c (inner c)) xs (out, cur)))"
proof (induction xs arbitrary: out cur)
  case Nil
  then show ?case by simp
next
  case (Cons x xs)
  obtain out' cur' where st: "wrapper_step tx so ws x (inner x) (out, cur) = (out', cur')"
    by (cases "wrapper_step tx so ws x (inner x) (out, cur)")
  with wrapper_step_fst [where out = out and tx = tx and so = so and ws = ws and c = x and inner = "inner x" and cur = cur] Cons.prems have "n \<in> set out'" by auto
  from Cons.IH [OF this] st show ?case by simp
qed

lemma fold_wrapper_step_has:
  "c \<in> set xs \<Longrightarrow>
   El (built_elem (build_wrapper_element tx ws c (inner c)))
     \<in> set (fst (fold (\<lambda>c. wrapper_step tx so ws c (inner c)) xs (out, cur)))"
proof (induction xs arbitrary: out cur)
  case Nil
  then show ?case by simp
next
  case (Cons x xs)
  obtain out' cur' where st: "wrapper_step tx so ws x (inner x) (out, cur) = (out', cur')"
    by (cases "wrapper_step tx so ws x (inner x) (out, cur)")
  show ?case
  proof (cases "c = x")
    case True
    with wrapper_step_fst [where out = out and tx = tx and so = so and ws = ws and c = x and inner = "inner x" and cur = cur] st
    have "El (built_elem (build_wrapper_element tx ws c (inner c))) \<in> set out'" by auto
    from fold_wrapper_step_keeps [OF this] st show ?thesis by simp
  next
    case False
    with Cons.prems have "c \<in> set xs" by simp
    from Cons.IH [OF this] st show ?thesis by simp
  qed
qed

lemma render_span_has_child:
  assumes "c \<in> set cs"
  shows "El (wrapper_elem tx so ws c) \<in> set (render_span tx so ws s e cs)"
proof -
  let ?f = "\<lambda>cidx. wrapper_step tx so ws cidx
                     (render_span tx so ws (offset (ws ! cidx)) (end_op (ws ! cidx))
                        (children_of ws cidx))"
  let ?xs = "sort_key (\<lambda>i. offset (ws ! i)) cs"
  obtain out cur where f: "fold ?f ?xs ([], s) = (out, cur)" by (cases "fold ?f ?xs ([], s)")
  from assms have "c \<in> set ?xs" by simp
  from fold_wrapper_step_has [OF this, where tx = tx and ws = ws and so = so and out = "[]" and cur = s
      and inner = "\<lambda>cidx. render_span tx so ws (offset (ws ! cidx)) (end_op (ws ! cidx)) (children_of ws cidx)"] f
  have "El (wrapper_elem tx so ws c) \<in> set out"
    by (simp add: wrapper_elem_def)
  moreover from assms have "cs \<noteq> []" by auto
  ultimately show ?thesis
    by (subst render_span.simps) (simp add: f)
qed

lemma render_roots_has_root:
  assumes "r \<in> set (roots_of ws)"
  shows "El (wrapper_elem tx so ws r) \<in> set (render_roots tx so ws)"
proof -
  let ?f = "\<lambda>cidx. wrapper_step tx so ws cidx
                     (render_span tx so ws (offset (ws ! cidx)) (end_op (ws ! cidx))
                        (children_of ws cidx))"
  let ?xs = "sort_key (\<lambda>i. offset (ws ! i)) (roots_of ws)"
  obtain out cur where f: "fold ?f ?xs ([], 0) = (out, cur)" by (cases "fold ?f ?xs ([], 0)")
  from assms have "r \<in> set ?xs" by simp
  from fold_wrapper_step_has [OF this, where tx = tx and ws = ws and so = so and out = "[]" and cur = 0
      and inner = "\<lambda>cidx. render_span tx so ws (offset (ws ! cidx)) (end_op (ws ! cidx)) (children_of ws cidx)"] f
  have "El (wrapper_elem tx so ws r) \<in> set out"
    by (simp add: wrapper_elem_def)
  moreover from assms have "roots_of ws \<noteq> []" by auto
  ultimately show ?thesis
    by (simp add: render_roots_def Let_def f)
qed

lemma elems_of_mem: "El e \<in> set ns \<Longrightarrow> e \<in> set (elems_of ns)"
  by (induction ns) (auto simp: elems_of_def split: node.splits)

lemma child_elem_occurs:
  "c \<in> set (children_of ws i) \<Longrightarrow> occurs_in (wrapper_elem tx so ws c) (wrapper_elem tx so ws i)"
  unfolding wrapper_elem_def [of tx so ws i]
  by (rule build_wrapper_occurs, rule elems_of_mem, rule render_span_has_child)

lemma occurs_in_trans: "occurs_in d k \<Longrightarrow> occurs_in k e \<Longrightarrow> occurs_in d e"
proof (induction e)
  case (Elem t a x tq ks)
  from Elem.prems(2) obtain c where c: "c \<in> set ks"
    and ck: "set_tail c None = set_tail k None \<or> occurs_in k c" by auto
  from ck have "occurs_in d c"
  proof
    assume "set_tail c None = set_tail k None"
    then have "kids_mt c = kids_mt k" by (metis kids_mt_simps(3))
    from occurs_in_cong_kids [OF this] Elem.prems(1) show ?thesis by simp
  next
    assume "occurs_in k c"
    from Elem.IH [OF c Elem.prems(1) this] show ?thesis .
  qed
  with c show ?case by auto
qed

lemma descendant_elem_occurs:
  "j \<in> set (descendants ws i) \<Longrightarrow> occurs_in (wrapper_elem tx so ws j) (wrapper_elem tx so ws i)"
proof (induction ws i rule: descendants.induct)
  case (1 ws i)
  from "1.prems" obtain c where c: "c \<in> set (children_of ws i)"
    and j: "j = c \<or> j \<in> set (descendants ws c)"
    by (subst (asm) descendants.simps) auto
  note ci = child_elem_occurs [OF c, where tx = tx and so = so]
  from j show ?case
  proof
    assume "j = c"
    with ci show ?thesis by simp
  next
    assume "j \<in> set (descendants ws c)"
    from "1.IH" [OF c this] ci show ?thesis by (rule occurs_in_trans)
  qed
qed

lemma tree_upto_root:
  "j < n \<Longrightarrow> n \<le> length ws \<Longrightarrow> find_parent ws j = None \<Longrightarrow> j \<in> set (snd (tree_upto ws n))"
proof (induction n)
  case 0
  then show ?case by simp
next
  case (Suc n)
  obtain ch rs where st: "tree_upto ws n = (ch, rs)" by (cases "tree_upto ws n")
  show ?case
  proof (cases "j = n")
    case True
    with Suc.prems(3) st show ?thesis
      by (simp add: tree_upto_Suc tree_step_def)
  next
    case False
    with Suc have "j \<in> set rs" using st by simp
    with st show ?thesis
      by (cases "find_parent ws n") (simp_all add: tree_upto_Suc tree_step_def)
  qed
qed

lemma reach_root:
  "i < length ws \<Longrightarrow> \<exists>r \<in> set (roots_of ws). r = i \<or> i \<in> set (descendants ws r)"
proof (induction i rule: less_induct)
  case (less i)
  show ?case
  proof (cases "find_parent ws i")
    case None
    from tree_upto_root [OF less.prems le_refl None] have "i \<in> set (roots_of ws)"
      by (simp add: roots_of_def build_tree_def)
    then show ?thesis by blast
  next
    case (Some k)
    from find_parent_less [OF Some] less.prems have k: "k < i" "k < length ws" by simp_all
    from children_of_parent [OF less.prems Some] have "i \<in> set (descendants ws k)"
      by (rule descendants_child)
    moreover from less.IH [OF k] obtain r where r: "r \<in> set (roots_of ws)"
      and rk: "r = k \<or> k \<in> set (descendants ws r)" by blast
    ultimately have "i \<in> set (descendants ws r)"
      using rk descendants_transitive by blast
    with r show ?thesis by blast
  qed
qed

lemma render_roots_has_wrapper:
  assumes "i < length ws"
  shows "nodes_have (wrapper_elem tx so ws i) (render_roots tx so ws)"
proof -
  from reach_root [OF assms] obtain r where r: "r \<in> set (roots_of ws)"
    and ri: "r = i \<or> i \<in> set (descendants ws r)" by blast
  from render_roots_has_root [OF r] have m: "El (wrapper_elem tx so ws r) \<in> set (render_roots tx so ws)" .
  from ri have "set_tail (wrapper_elem tx so ws r) None = set_tail (wrapper_elem tx so ws i) None
      \<or> occurs_in (wrapper_elem tx so ws i) (wrapper_elem tx so ws r)"
    using descendant_elem_occurs by blast
  with m show ?thesis
    unfolding nodes_have_def by (intro bexI [of _ "El (wrapper_elem tx so ws r)"]) simp_all
qed

lemma same_mod_tail_tag: "set_tail k None = set_tail d None \<Longrightarrow> tag k = tag d"
  by (metis set_tail_sel(1))

lemma wrap_in_children_keeps:
  assumes x: "tag d = ''persName''"
    and ih: "\<And>k. k \<in> set ks \<Longrightarrow> occurs_in d k \<Longrightarrow> occurs_in d (snd (wrap_choice_in_persname_in_element k p))"
  shows "\<exists>k \<in> set ks. set_tail k None = set_tail d None \<or> occurs_in d k \<Longrightarrow>
     \<exists>k \<in> set (snd (wrap_choice_in_children ks p)). set_tail k None = set_tail d None \<or> occurs_in d k"
  using ih
proof (induction ks)
  case Nil
  then show ?case by simp
next
  case (Cons child rest)
  obtain w1 r1 where r: "wrap_choice_in_children rest p = (w1, r1)"
    by (cases "wrap_choice_in_children rest p")
  obtain w2 c2 where c: "wrap_choice_in_persname_in_element child p = (w2, c2)"
    by (cases "wrap_choice_in_persname_in_element child p")
  have rest: "\<exists>k \<in> set rest. set_tail k None = set_tail d None \<or> occurs_in d k \<Longrightarrow>
      \<exists>k \<in> set r1. set_tail k None = set_tail d None \<or> occurs_in d k"
    using Cons.IH Cons.prems(2) r by simp
  have np: "tag child \<noteq> ''persName'' \<Longrightarrow> set_tail child None \<noteq> set_tail d None"
    using same_mod_tail_tag [of child d] x by auto
  from Cons.prems(2) [of child] c have ch: "occurs_in d child \<Longrightarrow> occurs_in d c2" by simp
  from Cons.prems(1) consider (here) "set_tail child None = set_tail d None \<or> occurs_in d child"
    | (there) "\<exists>k \<in> set rest. set_tail k None = set_tail d None \<or> occurs_in d k" by auto
  then show ?case
  proof cases
    case here
    then show ?thesis
      using r c np ch by (auto simp: occurs_in_sel [of d "set_kids (pers_elem p) [child]"])
  next
    case there
    with rest show ?thesis
      using r c by auto
  qed
qed

lemma wrap_in_element_keeps:
  assumes "tag d = ''persName''"
  shows "occurs_in d e \<Longrightarrow> occurs_in d (snd (wrap_choice_in_persname_in_element e p))"
proof (induction e)
  case (Elem t a x tq ks)
  from Elem.prems have "\<exists>k \<in> set ks. set_tail k None = set_tail d None \<or> occurs_in d k" by simp
  from wrap_in_children_keeps [OF assms _ this, of p] Elem.IH
  have "\<exists>k \<in> set (snd (wrap_choice_in_children ks p)). set_tail k None = set_tail d None \<or> occurs_in d k"
    by blast
  with Elem.prems show ?case
    by (auto split: prod.splits)
qed

lemma wrap_in_nodes_keeps:
  assumes "tag d = ''persName''"
  shows "nodes_have d nodes \<Longrightarrow> nodes_have d (snd (wrap_choice_in_nodes_list nodes p))"
proof (induction nodes)
  case Nil
  then show ?case by (simp add: nodes_have_def)
next
  case (Cons n rest)
  obtain w1 r1 where r: "wrap_choice_in_nodes_list rest p = (w1, r1)"
    by (cases "wrap_choice_in_nodes_list rest p")
  have rest: "nodes_have d rest \<Longrightarrow> nodes_have d r1"
    using Cons.IH r by simp
  show ?case
  proof (cases n)
    case (Str s)
    with Cons.prems rest r show ?thesis by (auto simp: nodes_have_def)
  next
    case (El e)
    obtain w2 c2 where c: "wrap_choice_in_persname_in_element e p = (w2, c2)"
      by (cases "wrap_choice_in_persname_in_element e p")
    have np: "tag e \<noteq> ''persName'' \<Longrightarrow> set_tail e None \<noteq> set_tail d None"
      using same_mod_tail_tag [of e d] assms by auto
    from wrap_in_element_keeps [OF assms, of e p] c have ch: "occurs_in d e \<Longrightarrow> occurs_in d c2" by simp
    from Cons.prems El consider (here) "set_tail e None = set_tail d None \<or> occurs_in d e"
      | (there) "nodes_have d rest" by (auto simp: nodes_have_def)
    then show ?thesis
    proof cases
      case here
      then show ?thesis
        using El r c np ch
        by (auto simp: nodes_have_def
            occurs_in_sel [of d "set_kids (pers_elem p) [set_tail e None]"])
    next
      case there
      with rest have "nodes_have d r1" by simp
      then show ?thesis
        using El r c there by (auto simp: nodes_have_def)
    qed
  qed
qed

lemma unify_keeps:
  assumes "tag d = ''persName''"
  shows "nodes_have d nodes \<Longrightarrow> nodes_have d (unify_entities ops nodes)"
proof -
  have "\<And>nodes. nodes_have d nodes \<Longrightarrow>
      nodes_have d (fold (\<lambda>p nodes. wrap_for_person p (choice_ops ops) nodes) ps nodes)" for ps
  proof (induction ps)
    case Nil
    then show ?case by simp
  next
    case (Cons p ps)
    from Cons.prems wrap_in_nodes_keeps [OF assms, of nodes p]
    have "nodes_have d (wrap_for_person p (choice_ops ops) nodes)"
      by (simp add: wrap_for_person_once)
    from Cons.IH [OF this] show ?case by simp
  qed
  then show "nodes_have d nodes \<Longrightarrow> nodes_have d (unify_entities ops nodes)"
    by (simp add: unify_entities_def)
qed

lemma wrapper_elem_person:
  "kind (ws ! i) = ''person'' \<Longrightarrow>
   tag (wrapper_elem tx so ws i) = ''persName''
   \<and> attrib (wrapper_elem tx so ws i) = attrib (pers_elem (ws ! i))"
proof -
  assume k: "kind (ws ! i) = ''person''"
  let ?inner = "render_span tx so ws (offset (ws ! i)) (end_op (ws ! i)) (children_of ws i)"
  obtain lead el trail where p: "populate_target_with_nodes (pers_elem (ws ! i)) ?inner = (lead, el, trail)"
    by (cases "populate_target_with_nodes (pers_elem (ws ! i)) ?inner")
  have fresh: "etext (pers_elem (ws ! i)) = None" "kids (pers_elem (ws ! i)) = []" by simp_all
  from populate_props(6,7) [OF p fresh] k p show ?thesis
    by (simp add: wrapper_elem_def build_wrapper_element_def Let_def simple_element_def)
qed

lemma wrapper_elem_abbrev:
  "kind (ws ! j) = ''abbrev'' \<Longrightarrow> tag (wrapper_elem tx so ws j) = ''choice''"
  by (simp add: wrapper_elem_def build_wrapper_element_def Let_def witness_choice_element_def
      choice_elem_def split: prod.splits)

lemma same_interval_between:
  assumes "i \<le> k" "k \<le> j" "j < length (wrappers ops)"
    and "offset (wrappers ops ! i) = offset (wrappers ops ! j)"
    and "end_op (wrappers ops ! i) = end_op (wrappers ops ! j)"
  shows "offset (wrappers ops ! k) = offset (wrappers ops ! i)
     \<and> end_op (wrappers ops ! k) = end_op (wrappers ops ! i)"
proof -
  from assms have "k < length (wrappers ops)" by simp
  from wrappers_mono [OF assms(1) this] wrappers_mono [OF assms(2,3)] assms(4,5)
  show ?thesis
    by (auto simp: sort_key_of_def)
qed

lemma tie_break_positions:
  assumes "i < length (wrappers ops)" "j < length (wrappers ops)"
    and "kind (wrappers ops ! i) = ''person''" "kind (wrappers ops ! j) = ''abbrev''"
    and "offset (wrappers ops ! i) = offset (wrappers ops ! j)"
    and "end_op (wrappers ops ! i) = end_op (wrappers ops ! j)"
  shows "i < j" "j \<in> set (descendants (wrappers ops) i)" "i \<notin> set (descendants (wrappers ops) j)"
proof -
  show ij: "i < j"
  proof (rule ccontr)
    assume "\<not> i < j"
    then have "j \<le> i" by simp
    from wrappers_mono [OF this assms(1)] assms(3-6) show False
      by (auto simp: sort_key_of_def op_priority_def)
  qed
  have e: "encloses (wrappers ops ! i) (wrappers ops ! j)"
    using assms(5,6) by (simp add: encloses_def)
  have "\<forall>k. i < k \<and> k < j \<and> encloses (wrappers ops ! k) (wrappers ops ! j)
              \<longrightarrow> encloses (wrappers ops ! i) (wrappers ops ! k)"
  proof (intro allI impI)
    fix k assume "i < k \<and> k < j \<and> encloses (wrappers ops ! k) (wrappers ops ! j)"
    then have "i \<le> k" "k \<le> j" by simp_all
    from same_interval_between [OF this assms(2,5,6)]
    show "encloses (wrappers ops ! i) (wrappers ops ! k)"
      by (simp add: encloses_def)
  qed
  from enclosed_is_descendant [OF assms(2) ij e this]
  show "j \<in> set (descendants (wrappers ops) i)" .
  show "i \<notin> set (descendants (wrappers ops) j)"
    using descendants_greater [of i "wrappers ops" j] ij by auto
qed


text \<open>
  C2. A person span and an abbrev span of the input with the same offset and end (and
  positive length, so that they are rendered at all) both occur among the sorted wrappers.
  Wherever they occur, the person is sorted before the abbrev; in the containment tree the
  abbrev is a descendant of the person and not the other way round; the element built for
  the person is a \<open>persName\<close> with the person's attributes; the element built for the abbrev
  is a \<open>choice\<close> and occurs inside the person's element; and the person's element, with the
  \<open>choice\<close> in it, is part of the rendered output of the line (as one of its nodes or
  inside one), also after the pass that wraps choices.
\<close>

theorem C2_tie_break:
  assumes "p \<in> set ops" and "a \<in> set ops"
    and "kind p = ''person''" and "kind a = ''abbrev''"
    and "length_op p > 0" and "length_op a > 0"
    and "offset p = offset a" and "end_op p = end_op a"
  shows "(\<exists>i < length (wrappers ops). wrappers ops ! i = p)
     \<and> (\<exists>j < length (wrappers ops). wrappers ops ! j = a)
     \<and> (\<forall>i j. i < length (wrappers ops) \<and> j < length (wrappers ops)
               \<and> wrappers ops ! i = p \<and> wrappers ops ! j = a
           \<longrightarrow> i < j \<and> j \<in> set (descendants (wrappers ops) i)
               \<and> i \<notin> set (descendants (wrappers ops) j)
               \<and> tag (wrapper_elem tx (of_kind ''textStyle'' ops) (wrappers ops) i) = ''persName''
               \<and> attrib (wrapper_elem tx (of_kind ''textStyle'' ops) (wrappers ops) i)
                    = attrib (pers_elem p)
               \<and> tag (wrapper_elem tx (of_kind ''textStyle'' ops) (wrappers ops) j) = ''choice''
               \<and> occurs_in (wrapper_elem tx (of_kind ''textStyle'' ops) (wrappers ops) j)
                    (wrapper_elem tx (of_kind ''textStyle'' ops) (wrappers ops) i)
               \<and> nodes_have (wrapper_elem tx (of_kind ''textStyle'' ops) (wrappers ops) i)
                    (build_inline_nodes_for_line tx ops))"
proof (intro conjI allI impI)
  from assms have "p \<in> set (wrappers ops)" by (simp add: set_wrappers)
  then show "\<exists>i < length (wrappers ops). wrappers ops ! i = p"
    by (simp add: in_set_conv_nth)
  from assms have "a \<in> set (wrappers ops)" by (simp add: set_wrappers)
  then show "\<exists>j < length (wrappers ops). wrappers ops ! j = a"
    by (simp add: in_set_conv_nth)
next
  fix i j
  let ?so = "of_kind ''textStyle'' ops"
  assume h: "i < length (wrappers ops) \<and> j < length (wrappers ops)
               \<and> wrappers ops ! i = p \<and> wrappers ops ! j = a"
  with assms have k: "kind (wrappers ops ! i) = ''person''" "kind (wrappers ops ! j) = ''abbrev''"
    "offset (wrappers ops ! i) = offset (wrappers ops ! j)"
    "end_op (wrappers ops ! i) = end_op (wrappers ops ! j)"
    by simp_all
  from h have l: "i < length (wrappers ops)" "j < length (wrappers ops)" by simp_all
  note t = tie_break_positions [OF l k]
  from t show "i < j" "j \<in> set (descendants (wrappers ops) i)"
    "i \<notin> set (descendants (wrappers ops) j)" .
  from wrapper_elem_person [OF k(1), of tx ?so] h
  show pt: "tag (wrapper_elem tx ?so (wrappers ops) i) = ''persName''"
    and "attrib (wrapper_elem tx ?so (wrappers ops) i) = attrib (pers_elem p)"
    by simp_all
  from wrapper_elem_abbrev [OF k(2)]
  show "tag (wrapper_elem tx ?so (wrappers ops) j) = ''choice''" .
  from descendant_elem_occurs [OF t(2)]
  show "occurs_in (wrapper_elem tx ?so (wrappers ops) j) (wrapper_elem tx ?so (wrappers ops) i)" .
  from unify_keeps [OF pt render_roots_has_wrapper [OF l(1)]]
  show "nodes_have (wrapper_elem tx ?so (wrappers ops) i) (build_inline_nodes_for_line tx ops)"
    by (simp add: build_inline_nodes_for_line_def)
qed

theorem C2_tie_break_witness:
  "1 \<in> set (descendants (wrappers
      [\<lparr>kind = ''abbrev'', offset = 0, length_op = 2, end_op = 2, attrs = [(''expansion'', ''x'')]\<rparr>,
       \<lparr>kind = ''person'', offset = 0, length_op = 2, end_op = 2, attrs = []\<rparr>]) 0)
   \<and> nodes_have
       (wrapper_elem ''ab''
          (of_kind ''textStyle''
            [\<lparr>kind = ''abbrev'', offset = 0, length_op = 2, end_op = 2, attrs = [(''expansion'', ''x'')]\<rparr>,
             \<lparr>kind = ''person'', offset = 0, length_op = 2, end_op = 2, attrs = []\<rparr>])
          (wrappers
            [\<lparr>kind = ''abbrev'', offset = 0, length_op = 2, end_op = 2, attrs = [(''expansion'', ''x'')]\<rparr>,
             \<lparr>kind = ''person'', offset = 0, length_op = 2, end_op = 2, attrs = []\<rparr>]) 0)
       (build_inline_nodes_for_line ''ab''
          [\<lparr>kind = ''abbrev'', offset = 0, length_op = 2, end_op = 2, attrs = [(''expansion'', ''x'')]\<rparr>,
           \<lparr>kind = ''person'', offset = 0, length_op = 2, end_op = 2, attrs = []\<rparr>])"
proof -
  let ?a = "\<lparr>kind = ''abbrev'', offset = 0, length_op = 2, end_op = 2, attrs = [(''expansion'', ''x'')]\<rparr>"
  let ?p = "\<lparr>kind = ''person'', offset = 0, length_op = 2, end_op = 2, attrs = []\<rparr>"
  have ws: "wrappers [?a, ?p] = [?p, ?a]"
    by code_simp
  have prem: "0 < length (wrappers [?a, ?p]) \<and> 1 < length (wrappers [?a, ?p])
               \<and> wrappers [?a, ?p] ! 0 = ?p \<and> wrappers [?a, ?p] ! 1 = ?a"
    by (simp add: ws)
  have "?p \<in> set [?a, ?p]" "?a \<in> set [?a, ?p]" "kind ?p = ''person''" "kind ?a = ''abbrev''"
    "length_op ?p > 0" "length_op ?a > 0" "offset ?p = offset ?a" "end_op ?p = end_op ?a"
    by simp_all
  from C2_tie_break [OF this, of "''ab''"] prem
  show ?thesis by blast
qed

lemma tie_break_rendered:
  "build_inline_nodes_for_line ''ab''
     [\<lparr>kind = ''abbrev'', offset = 0, length_op = 2, end_op = 2, attrs = [(''expansion'', ''x'')]\<rparr>,
      \<lparr>kind = ''person'', offset = 0, length_op = 2, end_op = 2, attrs = []\<rparr>]
   = [El (Elem ''persName'' [] None None
           [Elem ''choice'' [] None None
              [Elem ''abbr'' [] (Some ''ab'') None [], Elem ''expan'' [] (Some ''x'') None []]])]"
  by code_simp

section \<open>Slicing a plain segment by style ranges\<close>

lemma py_slice_inside:
  "0 \<le> a \<Longrightarrow> a \<le> b \<Longrightarrow> b \<le> int (length xs) \<Longrightarrow>
   py_slice xs a b = take (nat (b - a)) (drop (nat a) xs)"
  by (simp add: py_slice_def Let_def min_def max_def)

lemma py_slice_whole [simp]: "py_slice xs 0 (int (length xs)) = xs"
  by (simp add: py_slice_def)

lemma py_slice_empty [simp]: "py_slice xs a a = []"
  by (simp add: py_slice_def Let_def)

lemma py_slice_append:
  assumes "0 \<le> a" "a \<le> b" "b \<le> c" "c \<le> int (length xs)"
  shows "py_slice xs a b @ py_slice xs b c = py_slice xs a c"
proof -
  have "take (nat (c - a)) (drop (nat a) xs)
      = take (nat (b - a) + nat (c - b)) (drop (nat a) xs)"
    using assms by (simp add: nat_add_distrib [symmetric])
  also have "\<dots> = take (nat (b - a)) (drop (nat a) xs)
      @ take (nat (c - b)) (drop (nat (b - a)) (drop (nat a) xs))"
    by (rule take_add)
  also have "drop (nat (b - a)) (drop (nat a) xs) = drop (nat b) xs"
    using assms by (simp add: nat_add_distrib [symmetric])
  finally show ?thesis
    using assms by (simp add: py_slice_inside)
qed

lemma cuts_concat:
  "cs \<noteq> [] \<Longrightarrow> sorted cs \<Longrightarrow> 0 \<le> hd cs \<Longrightarrow> last cs \<le> int (length xs) \<Longrightarrow>
   concat (map (\<lambda>(s, e). py_slice xs s e) (zip cs (tl cs))) = py_slice xs (hd cs) (last cs)"
proof (induction cs rule: list_nonempty_induct)
  case (single c)
  show ?case by simp
next
  case (cons c cs)
  from cons.prems cons.hyps have le: "c \<le> hd cs" and s: "sorted cs"
    by (cases cs; simp)+
  from s cons.hyps have hl: "hd cs \<le> last cs"
    by (cases cs) auto
  from cons.prems(2) le have h0: "0 \<le> hd cs" by simp
  from cons.prems(3) cons.hyps have h1: "last cs \<le> int (length xs)" by simp
  from cons.IH [OF s h0 h1]
  have ih: "concat (map (\<lambda>(s, e). py_slice xs s e) (zip cs (tl cs))) = py_slice xs (hd cs) (last cs)"
    by simp
  have "zip (c # cs) (tl (c # cs)) = (c, hd cs) # zip cs (tl cs)"
    using cons.hyps by (cases cs) simp_all
  then show ?case
    using ih py_slice_append [of c "hd cs" "last cs" xs] cons.prems le hl cons.hyps
    by simp
qed

definition seg_text_of :: "int \<times> int \<times> string \<times> string list \<Rightarrow> string" where
  "seg_text_of seg = (case seg of (s, e, seg_text, labels) \<Rightarrow> seg_text)"

lemma sorted_hd_last:
  fixes cs :: "int list"
  shows "sorted cs \<Longrightarrow> x \<in> set cs \<Longrightarrow> hd cs \<le> x \<and> x \<le> last cs"
proof (induction cs)
  case Nil
  then show ?case by simp
next
  case (Cons c cs)
  show ?case
  proof (cases "cs = []")
    case True
    with Cons.prems show ?thesis by simp
  next
    case False
    then have "last cs \<in> set cs" by simp
    with Cons False show ?thesis by auto
  qed
qed

lemma cuts_props:
  fixes n :: int and cps :: "int list"
  assumes "0 \<le> n" "\<forall>c \<in> set cps. 0 \<le> c \<and> c \<le> n"
  shows "sort (remdups (0 # n # cps)) \<noteq> []" "sorted (sort (remdups (0 # n # cps)))"
    "hd (sort (remdups (0 # n # cps))) = 0" "last (sort (remdups (0 # n # cps))) = n"
proof -
  define cs where "cs = sort (remdups (0 # n # cps))"
  have "set cs = set (0 # n # cps)" by (simp only: cs_def set_sort set_remdups)
  then have set: "set cs = insert 0 (insert n (set cps))" by (simp only: list.simps(15))
  then have ne: "cs \<noteq> []" by auto
  have so: "sorted cs" by (simp only: cs_def sorted_sort)
  from ne have "hd cs \<in> set cs" "last cs \<in> set cs" by simp_all
  with set assms have b: "0 \<le> hd cs" "last cs \<le> n" by auto
  from set have "0 \<in> set cs" "n \<in> set cs" by simp_all
  with sorted_hd_last [OF so] have "hd cs \<le> 0" "n \<le> last cs" by blast+
  with b have "hd cs = 0" "last cs = n" by simp_all
  with ne so show "sort (remdups (0 # n # cps)) \<noteq> []" "sorted (sort (remdups (0 # n # cps)))"
    "hd (sort (remdups (0 # n # cps))) = 0" "last (sort (remdups (0 # n # cps))) = n"
    unfolding cs_def by blast+
qed

lemma seg_texts_of_pairs:
  "concat (map seg_text_of (concat (map (\<lambda>(s, e). if s = e then []
        else [(s, e, py_slice text s e, L s e)]) ps)))
   = concat (map (\<lambda>(s, e). py_slice text s e) ps)"
  by (induction ps) (auto simp: seg_text_of_def)

lemma slice_text_nodes_concat:
  "concat (map seg_text_of (slice_text_nodes text ranges)) = text"
proof -
  define n where "n = int (length text)"
  define cps where "cps = concat (map (\<lambda>(s, e, lab). [max 0 (min n s), max 0 (min n e)]) ranges)"
  define cs where "cs = sort (remdups (0 # n # cps))"
  have n0: "0 \<le> n" by (simp add: n_def)
  have "\<forall>c \<in> set cps. 0 \<le> c \<and> c \<le> n"
    using n0 by (auto simp: cps_def)
  note cp = cuts_props [OF n0 this, folded cs_def]
  have "concat (map seg_text_of (slice_text_nodes text ranges))
      = concat (map (\<lambda>(s, e). py_slice text s e) (zip cs (tl cs)))"
    unfolding slice_text_nodes_def Let_def n_def [symmetric] cps_def [symmetric] cs_def [symmetric]
    by (rule seg_texts_of_pairs)
  also have "\<dots> = py_slice text (hd cs) (last cs)"
    using cp by (intro cuts_concat) (simp_all add: n_def)
  finally show ?thesis using cp by (simp add: n_def)
qed

lemma hi_elem_sel [simp]:
  "tag (hi_elem labels seg) = ''hi''" "etext (hi_elem labels seg) = Some seg"
  "tail (hi_elem labels seg) = None" "kids (hi_elem labels seg) = []"
  by (simp_all add: hi_elem_def)

lemma styled_segment_text:
  "''hi'' \<notin> set sk \<Longrightarrow> inner_text sk (styled_segment parent seg) = inner_text sk parent @ seg_text_of seg"
  by (cases seg)
     (simp add: styled_segment_def seg_text_of_def inner_text_append_text inner_text_append_kid
        flat_text_sel [of sk "hi_elem _ _"])

lemma foldl_styled_segment_text:
  "''hi'' \<notin> set sk \<Longrightarrow>
   inner_text sk (foldl styled_segment parent segs) = inner_text sk parent @ concat (map seg_text_of segs)"
  by (induction segs arbitrary: parent) (simp_all add: styled_segment_text)

lemma build_styled_nodes_text:
  "''hi'' \<notin> set sk \<Longrightarrow> inner_text sk (build_styled_nodes parent tx so) = inner_text sk parent @ tx"
  by (simp add: build_styled_nodes_def Let_def inner_text_append_text foldl_styled_segment_text
      slice_text_nodes_concat)

lemma nodes_text_of_kids:
  "nodes_text sk (concat (map (\<lambda>ch. if truthy (tail ch)
                                     then [El (set_tail ch None), Str (or_empty (tail ch))]
                                     else [El ch]) ks)) = kids_text sk ks"
  by (induction ks) (auto simp: truthy_or_empty)

lemma render_plain_segment_text:
  assumes "''hi'' \<notin> set sk"
  shows "nodes_text sk (render_plain_segment tx so s e) = py_slice tx s e"
proof (cases "py_slice tx s e = []")
  case True
  then show ?thesis by (simp add: render_plain_segment_def)
next
  case False
  define tmp where "tmp = build_styled_nodes (new_elem ''tmp'') (py_slice tx s e)
      (filter (\<lambda>x. s \<le> offset x \<and> end_op x \<le> e) so)"
  have r: "render_plain_segment tx so s e
      = (if truthy (etext tmp) then [Str (or_empty (etext tmp))] else [])
        @ concat (map (\<lambda>ch. if truthy (tail ch)
                                     then [El (set_tail ch None), Str (or_empty (tail ch))]
                                     else [El ch]) (kids tmp))"
    using False by (simp add: render_plain_segment_def Let_def tmp_def)
  have "nodes_text sk (render_plain_segment tx so s e) = inner_text sk tmp"
    unfolding r by (cases "etext tmp") (simp_all add: nodes_text_of_kids inner_text_def)
  also have "\<dots> = py_slice tx s e"
    unfolding tmp_def using build_styled_nodes_text [OF assms, of "new_elem ''tmp''"] by simp
  finally show ?thesis .
qed

definition styled_ok :: "elem \<Rightarrow> bool" where
  \<comment> \<open>a styled element: a \<open>hi\<close> without children whose text is not punctuation only\<close>
  "styled_ok k = (tag k = ''hi'' \<and> kids k = [] \<and> \<not> punct_only (or_empty (etext k)))"

lemma styled_ok_set_tail [simp]: "styled_ok (set_tail k x) = styled_ok k"
  by (simp add: styled_ok_def)

lemma styled_ok_append_text:
  "list_all styled_ok (kids (append_text e s)) = list_all styled_ok (kids e)"
proof (cases "kids e = []")
  case True
  then show ?thesis by (simp add: append_text_def)
next
  case False
  then have "list_all styled_ok (kids e) = list_all styled_ok (butlast (kids e) @ [last (kids e)])"
    by simp
  also have "\<dots> = (list_all styled_ok (butlast (kids e)) \<and> styled_ok (last (kids e)))"
    by (simp del: append_butlast_last_id)
  finally show ?thesis
    using False by (simp add: append_text_def)
qed

lemma styled_ok_segment:
  "list_all styled_ok (kids parent) \<Longrightarrow> list_all styled_ok (kids (styled_segment parent seg))"
  by (cases seg) (simp add: styled_segment_def styled_ok_append_text styled_ok_def)

lemma styled_ok_foldl:
  "list_all styled_ok (kids parent) \<Longrightarrow> list_all styled_ok (kids (foldl styled_segment parent segs))"
  by (induction segs arbitrary: parent) (simp_all add: styled_ok_segment)

lemma styled_ok_build:
  "list_all styled_ok (kids parent) \<Longrightarrow> list_all styled_ok (kids (build_styled_nodes parent tx so))"
  by (simp add: build_styled_nodes_def Let_def styled_ok_append_text styled_ok_foldl)

lemma render_plain_segment_styled:
  "list_all (\<lambda>n. case n of El k \<Rightarrow> styled_ok k | Str x \<Rightarrow> True) (render_plain_segment tx so s e)"
proof -
  have "\<And>ks. list_all styled_ok ks \<Longrightarrow>
      list_all (\<lambda>n. case n of El k \<Rightarrow> styled_ok k | Str x \<Rightarrow> True)
        (concat (map (\<lambda>ch. if truthy (tail ch)
                                     then [El (set_tail ch None), Str (or_empty (tail ch))]
                                     else [El ch]) ks))"
  proof -
    fix ks show "list_all styled_ok ks \<Longrightarrow>
      list_all (\<lambda>n. case n of El k \<Rightarrow> styled_ok k | Str x \<Rightarrow> True)
        (concat (map (\<lambda>ch. if truthy (tail ch)
                                     then [El (set_tail ch None), Str (or_empty (tail ch))]
                                     else [El ch]) ks))"
      by (induction ks) auto
  qed
  with styled_ok_build [of "new_elem ''tmp''"] show ?thesis
    by (simp add: render_plain_segment_def Let_def)
qed

lemma sole_range_segments:
  assumes "0 \<le> a" "a < b" "b \<le> int (length tx)"
  shows "slice_text_nodes tx [(a, b, lab)] =
     (if 0 < a then [(0, a, py_slice tx 0 a, [])] else [])
     @ [(a, b, py_slice tx a b, [lab])]
     @ (if b < int (length tx) then [(b, int (length tx), py_slice tx b (int (length tx)), [])] else [])"
  using assms
  by (cases "a = 0"; cases "b = int (length tx)")
     (auto simp: slice_text_nodes_def Let_def min_def max_def)

section \<open>Lines whose annotations are all styles\<close>

lemma no_wrappers_line:
  assumes "wrappers ops = []"
  shows "build_inline_nodes_for_line tx ops
       = render_plain_segment tx (of_kind ''textStyle'' ops) 0 (int (length tx))"
proof -
  from assms have "set (wrappers ops) = {}" by simp
  then have "of_kind ''person'' ops = []"
    unfolding wrappers_def by (simp only: set_sort set_append) simp
  then show ?thesis
    using assms
    by (simp add: build_inline_nodes_for_line_def unify_entities_def render_roots_def
        roots_of_def build_tree_def tree_upto_def Let_def)
qed

lemma style_only_wrappers:
  assumes "\<forall>x \<in> set ops. kind x = ''textStyle'' \<or> length_op x \<le> 0"
  shows "wrappers ops = []"
proof -
  have "set (wrappers ops) = {}"
    using assms
    by (auto simp: wrappers_def of_kind_def choice_ops_def other_ops_def known_kinds_def)
  then show ?thesis by simp
qed

lemma length_py_slice:
  "0 \<le> a \<Longrightarrow> a \<le> b \<Longrightarrow> b \<le> int (length xs) \<Longrightarrow> length (py_slice xs a b) = nat (b - a)"
  by (simp add: py_slice_inside)

lemma py_slice_nonempty:
  "0 \<le> a \<Longrightarrow> a < b \<Longrightarrow> b \<le> int (length xs) \<Longrightarrow> py_slice xs a b \<noteq> []"
  using length_py_slice [of a b xs] by auto

lemma strip_blank: "list_all is_space s \<Longrightarrow> strip s = []"
  by (auto simp: strip_def lstrip_def rstrip_def list_all_iff dest: set_dropWhileD)

lemma blank_not_punct_only: "list_all is_space s \<Longrightarrow> \<not> punct_only s"
  by (simp add: punct_only_def strip_blank)

lemma sole_style_ranges:
  "rend_of op \<noteq> [] \<Longrightarrow> style_ranges [op] = [(offset op, end_op op, join '' '' (rend_of op))]"
  by (simp add: style_ranges_def)

lemma sole_span_plain:
  assumes "rend_of op \<noteq> []" "0 \<le> offset op" "offset op < end_op op" "end_op op \<le> int (length tx)"
    and "punct_only (py_slice tx (offset op) (end_op op))"
  shows "build_styled_nodes (new_elem tg) tx [op] = set_text (new_elem tg) (Some tx)"
proof -
  define a b n where "a = offset op" and "b = end_op op" and "n = int (length tx)"
  have ab: "0 \<le> a" "a < b" "b \<le> n" using assms by (simp_all add: a_def b_def n_def)
  have cat: "py_slice tx 0 a @ py_slice tx a b @ py_slice tx b n = tx"
    using ab py_slice_append [of 0 a b tx] py_slice_append [of 0 b n tx]
    by (simp add: n_def flip: append_assoc)
  have ne: "py_slice tx a b \<noteq> []" "0 < a \<Longrightarrow> py_slice tx 0 a \<noteq> []"
    "b < n \<Longrightarrow> py_slice tx b n \<noteq> []"
    using ab by (simp_all add: py_slice_nonempty n_def)
  have "build_styled_nodes (new_elem tg) tx [op]
      = foldl styled_segment (new_elem tg) (slice_text_nodes tx [(a, b, join '' '' (rend_of op))])"
    using assms(1) by (simp add: build_styled_nodes_def sole_style_ranges a_def b_def)
  also have "\<dots> = set_text (new_elem tg) (Some (py_slice tx 0 a @ py_slice tx a b @ py_slice tx b n))"
    using ab ne assms(5)
    by (cases "a = 0"; cases "b = n")
       (simp_all add: sole_range_segments n_def [symmetric] styled_segment_def append_text_def
          new_elem_def or_empty_def a_def [symmetric] b_def [symmetric])
  finally show ?thesis by (simp only: cat)
qed

lemma sole_span_styled:
  assumes "rend_of op \<noteq> []" "0 \<le> offset op" "offset op < end_op op" "end_op op \<le> int (length tx)"
    and "\<not> punct_only (py_slice tx (offset op) (end_op op))"
  shows "build_styled_nodes (new_elem tg) tx [op]
       = Elem tg [] (if 0 < offset op then Some (py_slice tx 0 (offset op)) else None) None
           [set_tail (hi_elem [join '' '' (rend_of op)] (py_slice tx (offset op) (end_op op)))
              (if end_op op < int (length tx)
               then Some (py_slice tx (end_op op) (int (length tx))) else None)]"
proof -
  define a b n where "a = offset op" and "b = end_op op" and "n = int (length tx)"
  have ab: "0 \<le> a" "a < b" "b \<le> n" using assms by (simp_all add: a_def b_def n_def)
  have ne: "py_slice tx a b \<noteq> []" "0 < a \<Longrightarrow> py_slice tx 0 a \<noteq> []"
    "b < n \<Longrightarrow> py_slice tx b n \<noteq> []"
    using ab by (simp_all add: py_slice_nonempty n_def)
  have "build_styled_nodes (new_elem tg) tx [op]
      = foldl styled_segment (new_elem tg) (slice_text_nodes tx [(a, b, join '' '' (rend_of op))])"
    using assms(1) by (simp add: build_styled_nodes_def sole_style_ranges a_def b_def)
  also have "\<dots> = Elem tg [] (if 0 < a then Some (py_slice tx 0 a) else None) None
           [set_tail (hi_elem [join '' '' (rend_of op)] (py_slice tx a b))
              (if b < n then Some (py_slice tx b n) else None)]"
    using ab ne assms(5)
    by (cases "a = 0"; cases "b = n")
       (simp_all add: sole_range_segments n_def [symmetric] styled_segment_def append_text_def
          append_kid_def new_elem_def or_empty_def hi_elem_def a_def [symmetric] b_def [symmetric])
  finally show ?thesis by (simp only: a_def b_def n_def)
qed

lemma sole_line_plain:
  assumes "kind op = ''textStyle''" "0 < length_op op" "rend_of op \<noteq> []"
    "0 \<le> offset op" "offset op < end_op op" "end_op op \<le> int (length tx)"
    and "punct_only (py_slice tx (offset op) (end_op op))"
  shows "build_inline_nodes_for_line tx [op] = [Str tx]"
proof -
  from assms have ne: "tx \<noteq> []" by auto
  have w: "wrappers [op] = []"
    using assms(1) by (intro style_only_wrappers) simp
  have s: "of_kind ''textStyle'' [op] = [op]"
    using assms by (simp add: of_kind_def)
  show ?thesis
    using ne assms(4-6) sole_span_plain [OF assms(3-7), of "''tmp''"]
    by (simp add: no_wrappers_line [OF w] s render_plain_segment_def Let_def new_elem_def
        truthy_def or_empty_def)
qed

lemma sole_line_styled:
  assumes "kind op = ''textStyle''" "0 < length_op op" "rend_of op \<noteq> []"
    "0 \<le> offset op" "offset op < end_op op" "end_op op \<le> int (length tx)"
    and "\<not> punct_only (py_slice tx (offset op) (end_op op))"
  shows "build_inline_nodes_for_line tx [op]
       = (if 0 < offset op then [Str (py_slice tx 0 (offset op))] else [])
         @ [El (hi_elem [join '' '' (rend_of op)] (py_slice tx (offset op) (end_op op)))]
         @ (if end_op op < int (length tx)
            then [Str (py_slice tx (end_op op) (int (length tx)))] else [])"
proof -
  from assms have ne: "tx \<noteq> []" by auto
  have w: "wrappers [op] = []"
    using assms(1) by (intro style_only_wrappers) simp
  have s: "of_kind ''textStyle'' [op] = [op]"
    using assms by (simp add: of_kind_def)
  have pn: "0 < offset op \<Longrightarrow> py_slice tx 0 (offset op) \<noteq> []"
    "end_op op < int (length tx) \<Longrightarrow> py_slice tx (end_op op) (int (length tx)) \<noteq> []"
    using assms(4-6) by (simp_all add: py_slice_nonempty)
  show ?thesis
    using ne assms(4-6) pn sole_span_styled [OF assms(3-7), of "''tmp''"]
    by (simp add: no_wrappers_line [OF w] s render_plain_segment_def Let_def
        truthy_def or_empty_def hi_elem_def)
qed

lemma zip_tl_sorted:
  fixes cs :: "int list"
  shows "sorted cs \<Longrightarrow> (s, e) \<in> set (zip cs (tl cs)) \<Longrightarrow> s \<le> e \<and> s \<in> set cs \<and> e \<in> set cs"
proof (induction cs)
  case Nil
  then show ?case by simp
next
  case (Cons c cs)
  then show ?case by (cases cs) auto
qed

lemma segment_shape:
  assumes "seg \<in> set (slice_text_nodes tx ranges)"
  shows "\<exists>s e. seg = (s, e, py_slice tx s e,
                   remdups (map (\<lambda>(ss, ee, lab). lab)
                     (filter (\<lambda>(ss, ee, lab). ss \<le> s \<and> e \<le> ee \<and> ss < ee) ranges)))
               \<and> 0 \<le> s \<and> s < e \<and> e \<le> int (length tx)"
proof -
  define n where "n = int (length tx)"
  define cps where "cps = concat (map (\<lambda>(s, e, lab). [max 0 (min n s), max 0 (min n e)]) ranges)"
  define cs where "cs = sort (remdups (0 # n # cps))"
  have n0: "0 \<le> n" by (simp add: n_def)
  have b: "\<forall>c \<in> set cps. 0 \<le> c \<and> c \<le> n"
    using n0 by (auto simp: cps_def)
  have so: "sorted cs" by (simp only: cs_def sorted_sort)
  have "set cs = set (0 # n # cps)" by (simp only: cs_def set_sort set_remdups)
  with b n0 have cb: "\<forall>c \<in> set cs. 0 \<le> c \<and> c \<le> n" by auto
  from assms obtain s e where se: "(s, e) \<in> set (zip cs (tl cs))" "s \<noteq> e"
    and seg: "seg = (s, e, py_slice tx s e,
                   remdups (map (\<lambda>(ss, ee, lab). lab)
                     (filter (\<lambda>(ss, ee, lab). ss \<le> s \<and> e \<le> ee \<and> ss < ee) ranges)))"
    unfolding slice_text_nodes_def Let_def n_def [symmetric] cps_def [symmetric] cs_def [symmetric]
    by (auto split: if_splits)
  from zip_tl_sorted [OF so se(1)] cb se(2) have "0 \<le> s \<and> s < e \<and> e \<le> n" by auto
  with seg show ?thesis unfolding n_def by blast
qed

lemma blank_sub_slice:
  assumes "list_all is_space (py_slice tx a b)" "0 \<le> a" "a \<le> s" "s \<le> e" "e \<le> b"
    "b \<le> int (length tx)"
  shows "list_all is_space (py_slice tx s e)"
proof -
  have "py_slice tx a b = py_slice tx a s @ py_slice tx s e @ py_slice tx e b"
    using assms py_slice_append [of a s e tx] py_slice_append [of a e b tx]
    by (simp flip: append_assoc)
  with assms(1) show ?thesis by simp
qed

lemma blank_segments_styled:
  assumes "op \<in> set style_ops" "rend_of op \<noteq> []"
    "0 \<le> offset op" "offset op < end_op op" "end_op op \<le> int (length tx)"
    "list_all is_space (py_slice tx (offset op) (end_op op))"
    and seg: "(s, e, seg_text, labels) \<in> set (slice_text_nodes tx (style_ranges style_ops))"
    and inside: "offset op \<le> s" "e \<le> end_op op"
  shows "labels \<noteq> []" "list_all is_space seg_text"
    "styled_segment parent (s, e, seg_text, labels) = append_kid parent (hi_elem labels seg_text)"
proof -
  from segment_shape [OF seg]
  have t: "seg_text = py_slice tx s e"
    and l: "labels = remdups (map (\<lambda>(ss, ee, lab). lab)
                     (filter (\<lambda>(ss, ee, lab). ss \<le> s \<and> e \<le> ee \<and> ss < ee) (style_ranges style_ops)))"
    and b: "0 \<le> s" "s < e" "e \<le> int (length tx)"
    by auto
  from assms(1,2) have "(offset op, end_op op, join '' '' (rend_of op)) \<in> set (style_ranges style_ops)"
    by (force simp: style_ranges_def)
  with inside assms(4) have "join '' '' (rend_of op) \<in> set labels"
    unfolding l by force
  then show 1: "labels \<noteq> []" by auto
  from blank_sub_slice [OF assms(6,3) inside(1) _ inside(2) assms(5)] b
  show 2: "list_all is_space seg_text" by (simp add: t)
  from 1 blank_not_punct_only [OF 2]
  show "styled_segment parent (s, e, seg_text, labels) = append_kid parent (hi_elem labels seg_text)"
    by (simp add: styled_segment_def)
qed

section \<open>Punctuation and whitespace under a style\<close>

text \<open>
  A style span with a flag set whose slice lies inside the text handed to
  \<^verbatim>\<open>build_styled_nodes\<close> and consists of whitespace only: every segment cut out of the slice
  carries a label, is not held for punctuation, and is appended as a \<open>hi\<close> element. When the
  span is the only style, the parent gets one \<open>hi\<close> element holding exactly the slice, and a
  line with this one annotation is rendered as the text before, the \<open>hi\<close> element, and the
  text after.
\<close>

lemma blank_slice_is_styled:
  assumes "op \<in> set style_ops" and "rend_of op \<noteq> []"
    and "0 \<le> offset op" and "offset op < end_op op" and "end_op op \<le> int (length tx)"
    and "list_all is_space (py_slice tx (offset op) (end_op op))"
  shows "(\<forall>(s, e, seg_text, labels) \<in> set (slice_text_nodes tx (style_ranges style_ops)).
            offset op \<le> s \<and> e \<le> end_op op \<longrightarrow>
            labels \<noteq> [] \<and> list_all is_space seg_text \<and> \<not> punct_only seg_text
            \<and> (\<forall>parent. styled_segment parent (s, e, seg_text, labels)
                         = append_kid parent (hi_elem labels seg_text)))
       \<and> (style_ops = [op] \<longrightarrow>
            build_styled_nodes (new_elem tg) tx style_ops
            = Elem tg [] (if 0 < offset op then Some (py_slice tx 0 (offset op)) else None) None
                [set_tail (hi_elem [join '' '' (rend_of op)] (py_slice tx (offset op) (end_op op)))
                   (if end_op op < int (length tx)
                    then Some (py_slice tx (end_op op) (int (length tx))) else None)])
       \<and> (kind op = ''textStyle'' \<and> 0 < length_op op \<longrightarrow>
            build_inline_nodes_for_line tx [op]
            = (if 0 < offset op then [Str (py_slice tx 0 (offset op))] else [])
              @ [El (hi_elem [join '' '' (rend_of op)] (py_slice tx (offset op) (end_op op)))]
              @ (if end_op op < int (length tx)
                 then [Str (py_slice tx (end_op op) (int (length tx)))] else []))"
proof (intro conjI)
  show "\<forall>(s, e, seg_text, labels) \<in> set (slice_text_nodes tx (style_ranges style_ops)).
            offset op \<le> s \<and> e \<le> end_op op \<longrightarrow>
            labels \<noteq> [] \<and> list_all is_space seg_text \<and> \<not> punct_only seg_text
            \<and> (\<forall>parent. styled_segment parent (s, e, seg_text, labels)
                         = append_kid parent (hi_elem labels seg_text))"
    using blank_segments_styled [OF assms] blank_not_punct_only by blast
next
  from blank_not_punct_only [OF assms(6)] sole_span_styled [OF assms(2-5)]
  show "style_ops = [op] \<longrightarrow>
            build_styled_nodes (new_elem tg) tx style_ops
            = Elem tg [] (if 0 < offset op then Some (py_slice tx 0 (offset op)) else None) None
                [set_tail (hi_elem [join '' '' (rend_of op)] (py_slice tx (offset op) (end_op op)))
                   (if end_op op < int (length tx)
                    then Some (py_slice tx (end_op op) (int (length tx))) else None)]"
    by blast
next
  from blank_not_punct_only [OF assms(6)] sole_line_styled [OF _ _ assms(2-5)]
  show "kind op = ''textStyle'' \<and> 0 < length_op op \<longrightarrow>
            build_inline_nodes_for_line tx [op]
            = (if 0 < offset op then [Str (py_slice tx 0 (offset op))] else [])
              @ [El (hi_elem [join '' '' (rend_of op)] (py_slice tx (offset op) (end_op op)))]
              @ (if end_op op < int (length tx)
                 then [Str (py_slice tx (end_op op) (int (length tx)))] else [])"
    by blast
qed

lemma blank_slice_example:
  "build_inline_nodes_for_line ''a  b''
     [\<lparr>kind = ''textStyle'', offset = 1, length_op = 2, end_op = 3,
       attrs = [(''underline'', ''true'')]\<rparr>]
   = [Str ''a'', El (Elem ''hi'' [(''rend'', ''underline'')] (Some ''  '') None []), Str ''b'']"
proof -
  let ?op = "\<lparr>kind = ''textStyle'', offset = 1, length_op = 2, end_op = 3,
       attrs = [(''underline'', ''true'')]\<rparr>"
  have h: "rend_of ?op \<noteq> []" "list_all is_space (py_slice ''a  b'' (offset ?op) (end_op ?op))"
    by code_simp+
  have v: "py_slice ''a  b'' 0 (offset ?op) = ''a''" "py_slice ''a  b'' (offset ?op) (end_op ?op) = ''  ''"
    "py_slice ''a  b'' (end_op ?op) (int (length ''a  b'')) = ''b''"
    "hi_elem [join '' '' (rend_of ?op)] ''  '' = Elem ''hi'' [(''rend'', ''underline'')] (Some ''  '') None []"
    by code_simp+
  from blank_slice_is_styled [of ?op "[?op]" "''a  b''", OF _ h(1) _ _ _ h(2)]
  have "build_inline_nodes_for_line ''a  b'' [?op]
            = (if 0 < offset ?op then [Str (py_slice ''a  b'' 0 (offset ?op))] else [])
              @ [El (hi_elem [join '' '' (rend_of ?op)] (py_slice ''a  b'' (offset ?op) (end_op ?op)))]
              @ (if end_op ?op < int (length ''a  b'')
                 then [Str (py_slice ''a  b'' (end_op ?op) (int (length ''a  b'')))] else [])"
    by simp
  then show ?thesis by (simp only: v) simp
qed

section \<open>Text preservation\<close>

definition alternative_tags :: "string list" where
  \<comment> \<open>the elements that hold a second reading or a part name taken from an attribute\<close>
  "alternative_tags = [''expan'', ''corr'', ''orig'', ''country'', ''region'', ''settlement'', ''district'']"

fun chain :: "span_op list \<Rightarrow> int \<Rightarrow> nat list \<Rightarrow> int \<Rightarrow> bool" where
  \<comment> \<open>the wrappers with the indices \<open>cs\<close> lie one after the other between \<open>a\<close> and \<open>b\<close>\<close>
  "chain ws a [] b = (a \<le> b)"
| "chain ws a (c # cs) b =
     (a \<le> offset (ws ! c) \<and> offset (ws ! c) \<le> end_op (ws ! c) \<and> chain ws (end_op (ws ! c)) cs b)"

lemma set_if_present_sel [simp]:
  "tag (set_if_present w key name el) = tag el" "etext (set_if_present w key name el) = etext el"
  "tail (set_if_present w key name el) = tail el" "kids (set_if_present w key name el) = kids el"
  by (simp_all add: set_if_present_def split: option.splits)

lemma seg_elem_sel [simp]:
  "tag (seg_elem w) = ''seg''" "etext (seg_elem w) = None"
  "tail (seg_elem w) = None" "kids (seg_elem w) = []"
proof -
  have "tag (foldl (\<lambda>el (key, v). if key \<in> set [''kind'', ''offset'', ''length'', ''end''] then el
                            else set_attr el (''data-'' @ key) v) e kvs) = tag e
      \<and> etext (foldl (\<lambda>el (key, v). if key \<in> set [''kind'', ''offset'', ''length'', ''end''] then el
                            else set_attr el (''data-'' @ key) v) e kvs) = etext e
      \<and> tail (foldl (\<lambda>el (key, v). if key \<in> set [''kind'', ''offset'', ''length'', ''end''] then el
                            else set_attr el (''data-'' @ key) v) e kvs) = tail e
      \<and> kids (foldl (\<lambda>el (key, v). if key \<in> set [''kind'', ''offset'', ''length'', ''end''] then el
                            else set_attr el (''data-'' @ key) v) e kvs) = kids e" for e kvs
    by (induction kvs arbitrary: e) (simp_all split: prod.splits)
  then show "tag (seg_elem w) = ''seg''" "etext (seg_elem w) = None"
    "tail (seg_elem w) = None" "kids (seg_elem w) = []"
    by (simp_all add: seg_elem_def)
qed

lemma emit_built_text:
  "nodes_text sk (emit_built (maybe_wrap_with_edge_whitespace (lead, el, trail) wrap_el))
   = lead @ flat_text sk wrap_el @ or_empty (tail wrap_el) @ trail"
  by (simp add: emit_built_def maybe_wrap_with_edge_whitespace_def)

lemma simple_element_text:
  assumes "etext el = None" "kids el = []" "tail el = None" "tag el \<notin> set sk"
  shows "nodes_text sk (emit_built (simple_element el inner)) = nodes_text sk inner"
proof -
  obtain lead el' trail where p: "populate_target_with_nodes el inner = (lead, el', trail)"
    by (cases "populate_target_with_nodes el inner")
  from populate_props(5) [OF p assms(1,2), of sk] populate_props(6,8) [OF p assms(1,2)] assms(3,4)
  show ?thesis
    by (simp add: simple_element_def p emit_built_text flat_text_inner or_empty_def)
qed

lemma witness_choice_text:
  assumes "a_tag \<notin> set sk" "b_tag \<in> set sk" "''choice'' \<notin> set sk"
  shows "nodes_text sk (emit_built (witness_choice_element w a_tag b_tag alt_key inner))
       = nodes_text sk inner"
proof -
  obtain lead a' trail where p: "populate_target_with_nodes (new_elem a_tag) inner = (lead, a', trail)"
    by (cases "populate_target_with_nodes (new_elem a_tag) inner")
  from populate_props(5) [OF p, of sk] populate_props(6,8) [OF p] assms
  show ?thesis
    by (simp add: witness_choice_element_def Let_def p emit_built_text choice_elem_def
        flat_text_inner [of sk a'] flat_text_sel [of sk "set_text _ _"] or_empty_def)
qed

lemma regularised_text:
  assumes "py_or (dict_get (attrs w) ''regularised'') (dict_get (attrs w) ''reg'') = None"
    and "''reg'' \<notin> set sk" "''orig'' \<in> set sk" "''choice'' \<notin> set sk"
  shows "nodes_text sk (emit_built (regularised_element w witness_text inner)) = nodes_text sk inner"
proof -
  obtain lead b' trail where p: "populate_target_with_nodes (new_elem ''reg'') inner = (lead, b', trail)"
    by (cases "populate_target_with_nodes (new_elem ''reg'') inner")
  from populate_props(5) [OF p, of sk] populate_props(6,8) [OF p] assms
  show ?thesis
    by (simp add: regularised_element_def Let_def p emit_built_text choice_elem_def
        flat_text_inner [of sk b'] flat_text_sel [of sk "set_text _ _"] or_empty_def)
qed

lemma place_text:
  assumes "''placeName'' \<notin> set sk"
    and "''country'' \<in> set sk" "''region'' \<in> set sk" "''settlement'' \<in> set sk" "''district'' \<in> set sk"
  shows "nodes_text sk (emit_built (place_element w inner)) = nodes_text sk inner"
proof -
  obtain lead el trail where p: "populate_target_with_nodes (new_elem ''placeName'') inner = (lead, el, trail)"
    by (cases "populate_target_with_nodes (new_elem ''placeName'') inner")
  have part: "inner_text sk (case dict_get (attrs w) attr of
                 Some v \<Rightarrow> append_kid e (set_text (new_elem attr) (Some v)) | None \<Rightarrow> e)
            = inner_text sk e
          \<and> tag (case dict_get (attrs w) attr of
                 Some v \<Rightarrow> append_kid e (set_text (new_elem attr) (Some v)) | None \<Rightarrow> e) = tag e
          \<and> tail (case dict_get (attrs w) attr of
                 Some v \<Rightarrow> append_kid e (set_text (new_elem attr) (Some v)) | None \<Rightarrow> e) = tail e"
    if "attr \<in> set sk" for attr e
    using that
    by (simp add: inner_text_append_kid flat_text_sel [of sk "set_text _ _"] or_empty_def
        split: option.splits)
  from populate_props(5) [OF p, of sk] populate_props(6,8) [OF p] assms(1)
  show ?thesis
    by (simp add: place_element_def p emit_built_text flat_text_inner part assms or_empty_def)
qed

lemma build_wrapper_text:
  assumes "kind (ws ! idx) = ''regularised'' \<longrightarrow>
      py_or (dict_get (attrs (ws ! idx)) ''regularised'') (dict_get (attrs (ws ! idx)) ''reg'') = None"
  shows "nodes_text alternative_tags (emit_built (build_wrapper_element tx ws idx inner))
       = nodes_text alternative_tags inner"
  using assms
  by (simp add: build_wrapper_element_def Let_def simple_element_text witness_choice_text
      regularised_text place_text alternative_tags_def)

lemma chain_le: "chain ws a cs b \<Longrightarrow> a \<le> b"
proof (induction cs arbitrary: a)
  case Nil
  then show ?case by simp
next
  case (Cons c cs)
  from Cons.prems Cons.IH [of "end_op (ws ! c)"] show ?case by simp
qed

lemma py_slice_clamp:
  "0 \<le> a \<Longrightarrow> 0 \<le> b \<Longrightarrow>
   py_slice xs a b = py_slice xs (min a (int (length xs))) (min b (int (length xs)))"
  by (simp add: py_slice_def Let_def)

lemma py_slice_join:
  assumes "0 \<le> a" "a \<le> b" "b \<le> c"
  shows "py_slice xs a b @ py_slice xs b c = py_slice xs a c"
proof -
  let ?n = "int (length xs)"
  from assms have "py_slice xs (min a ?n) (min b ?n) @ py_slice xs (min b ?n) (min c ?n)
      = py_slice xs (min a ?n) (min c ?n)"
    by (intro py_slice_append) simp_all
  with assms show ?thesis
    using py_slice_clamp [of a b xs] py_slice_clamp [of b c xs] py_slice_clamp [of a c xs]
    by simp
qed

lemma py_slice_past_end:
  assumes "0 \<le> a" "int (length xs) \<le> b" "int (length xs) \<le> c"
  shows "py_slice xs a b = py_slice xs a c"
  using assms by (simp add: py_slice_def Let_def min_def)

lemma wrapper_step_text:
  assumes inner: "nodes_text sk inner = py_slice tx (offset (ws ! c)) (end_op (ws ! c))"
    and built: "nodes_text sk (emit_built (build_wrapper_element tx ws c inner)) = nodes_text sk inner"
    and hi: "''hi'' \<notin> set sk"
    and b: "0 \<le> cur" "cur \<le> offset (ws ! c)" "offset (ws ! c) \<le> end_op (ws ! c)"
  shows "wrapper_step tx so ws c inner (out, cur) = (out', cur') \<Longrightarrow>
         nodes_text sk out' = nodes_text sk out @ py_slice tx cur (end_op (ws ! c))
         \<and> cur' = end_op (ws ! c)"
  using py_slice_join [of cur "offset (ws ! c)" "end_op (ws ! c)" tx] b inner built
  by (auto simp: wrapper_step_def Let_def render_plain_segment_text [OF hi])

lemma fold_wrapper_text:
  assumes hi: "''hi'' \<notin> set sk"
    and inner: "\<forall>c \<in> set cs. nodes_text sk (inner c) = py_slice tx (offset (ws ! c)) (end_op (ws ! c))"
    and built: "\<forall>c \<in> set cs. nodes_text sk (emit_built (build_wrapper_element tx ws c (inner c)))
                  = nodes_text sk (inner c)"
    and ch: "chain ws cur cs e" and b: "0 \<le> cur"
    and f: "fold (\<lambda>c. wrapper_step tx so ws c (inner c)) cs (out, cur) = (out', cur')"
  shows "nodes_text sk out' = nodes_text sk out @ py_slice tx cur cur' \<and> cur \<le> cur' \<and> cur' \<le> e"
  using inner built ch b f
proof (induction cs arbitrary: out cur)
  case Nil
  then show ?case by simp
next
  case (Cons c cs)
  obtain out1 cur1 where st: "wrapper_step tx so ws c (inner c) (out, cur) = (out1, cur1)"
    by (cases "wrapper_step tx so ws c (inner c) (out, cur)")
  from Cons.prems(3) have c: "cur \<le> offset (ws ! c)" "offset (ws ! c) \<le> end_op (ws ! c)"
    and rest: "chain ws (end_op (ws ! c)) cs e"
    by simp_all
  from wrapper_step_text [OF _ _ hi Cons.prems(4) c st] Cons.prems(1,2)
  have 1: "nodes_text sk out1 = nodes_text sk out @ py_slice tx cur (end_op (ws ! c))"
    and 2: "cur1 = end_op (ws ! c)"
    by simp_all
  from Cons.prems(5) st have f: "fold (\<lambda>c. wrapper_step tx so ws c (inner c)) cs (out1, cur1) = (out', cur')"
    by simp
  have "nodes_text sk out' = nodes_text sk out1 @ py_slice tx cur1 cur' \<and> cur1 \<le> cur' \<and> cur' \<le> e"
    using Cons.prems(1,2,4) rest c f
    by (intro Cons.IH) (simp_all add: 2)
  with 1 2 c Cons.prems(4) py_slice_join [of cur "end_op (ws ! c)" cur' tx]
  show ?case by simp
qed

definition nested_ok :: "span_op list \<Rightarrow> bool" where
  \<comment> \<open>no wrapper starts before the text, the children of a wrapper lie one after the other
      inside it, and no \<open>regularised\<close> wrapper carries its regularised form as an attribute\<close>
  "nested_ok ws =
     (\<forall>p < length ws.
        0 \<le> offset (ws ! p)
        \<and> chain ws (offset (ws ! p)) (sort_key (\<lambda>i. offset (ws ! i)) (children_of ws p)) (end_op (ws ! p))
        \<and> (kind (ws ! p) = ''regularised'' \<longrightarrow>
             py_or (dict_get (attrs (ws ! p)) ''regularised'') (dict_get (attrs (ws ! p)) ''reg'') = None))"

lemma nested_okD:
  assumes "nested_ok ws" "p < length ws"
  shows "0 \<le> offset (ws ! p)"
    "chain ws (offset (ws ! p)) (sort_key (\<lambda>i. offset (ws ! i)) (children_of ws p)) (end_op (ws ! p))"
    "kind (ws ! p) = ''regularised'' \<longrightarrow>
       py_or (dict_get (attrs (ws ! p)) ''regularised'') (dict_get (attrs (ws ! p)) ''reg'') = None"
  using assms by (simp_all add: nested_ok_def)

lemma hi_not_alternative: "''hi'' \<notin> set alternative_tags"
  by (simp add: alternative_tags_def)

lemma span_body_text:
  assumes ok: "nested_ok ws"
    and cs: "\<forall>c \<in> set cs. c < length ws"
    and inner: "\<forall>c \<in> set cs. nodes_text alternative_tags (inner c)
                  = py_slice tx (offset (ws ! c)) (end_op (ws ! c))"
    and ch: "chain ws s (sort_key (\<lambda>i. offset (ws ! i)) cs) b" and s: "0 \<le> s"
    and e: "b \<le> e \<or> int (length tx) \<le> e"
  shows "nodes_text alternative_tags
           (case fold (\<lambda>c. wrapper_step tx so ws c (inner c))
                   (sort_key (\<lambda>i. offset (ws ! i)) cs) ([], s) of
              (output, cursor) \<Rightarrow>
                if cursor < e then output @ render_plain_segment tx so cursor e else output)
         = py_slice tx s e"
proof -
  let ?cs = "sort_key (\<lambda>i. offset (ws ! i)) cs"
  obtain out cur where f: "fold (\<lambda>c. wrapper_step tx so ws c (inner c)) ?cs ([], s) = (out, cur)"
    by (cases "fold (\<lambda>c. wrapper_step tx so ws c (inner c)) ?cs ([], s)")
  have built: "\<forall>c \<in> set ?cs. nodes_text alternative_tags (emit_built (build_wrapper_element tx ws c (inner c)))
                  = nodes_text alternative_tags (inner c)"
    using nested_okD(3) [OF ok] cs by (auto intro!: build_wrapper_text)
  have inner': "\<forall>c \<in> set ?cs. nodes_text alternative_tags (inner c)
                  = py_slice tx (offset (ws ! c)) (end_op (ws ! c))"
    using inner by simp
  from fold_wrapper_text [OF hi_not_alternative inner' built ch s f]
  have r: "nodes_text alternative_tags out = py_slice tx s cur" "s \<le> cur" "cur \<le> b"
    by simp_all
  show ?thesis
  proof (cases "cur < e")
    case True
    with r s py_slice_join [of s cur e tx] show ?thesis
      by (simp add: f render_plain_segment_text [OF hi_not_alternative])
  next
    case False
    from e have "py_slice tx s cur = py_slice tx s e"
    proof
      assume "b \<le> e"
      with False r(3) have "cur = e" by linarith
      then show ?thesis by simp
    next
      assume "int (length tx) \<le> e"
      with False s show ?thesis by (intro py_slice_past_end) simp_all
    qed
    with False r show ?thesis by (simp add: f)
  qed
qed

lemma render_span_text:
  "nested_ok ws \<Longrightarrow> \<forall>c \<in> set cs. c < length ws \<Longrightarrow>
   chain ws s (sort_key (\<lambda>i. offset (ws ! i)) cs) e \<Longrightarrow> 0 \<le> s \<Longrightarrow>
   nodes_text alternative_tags (render_span tx so ws s e cs) = py_slice tx s e"
proof (induction tx so ws s e cs rule: render_span.induct)
  case (1 tx so ws s e cs)
  note ok = "1.prems"(1)
  show ?case
  proof (cases "cs = []")
    case True
    then show ?thesis
      by (subst render_span.simps) (simp add: render_plain_segment_text [OF hi_not_alternative])
  next
    case False
    have inner: "\<forall>c \<in> set cs. nodes_text alternative_tags
                    (render_span tx so ws (offset (ws ! c)) (end_op (ws ! c)) (children_of ws c))
                  = py_slice tx (offset (ws ! c)) (end_op (ws ! c))"
    proof
      fix c assume c: "c \<in> set cs"
      with "1.prems"(2) have lt: "c < length ws" by simp
      note p = nested_okD(1,2) [OF ok lt]
      have "\<forall>d \<in> set (children_of ws c). d < length ws"
        using children_of_bounds by blast
      with c False p ok show "nodes_text alternative_tags
                    (render_span tx so ws (offset (ws ! c)) (end_op (ws ! c)) (children_of ws c))
                  = py_slice tx (offset (ws ! c)) (end_op (ws ! c))"
        by (intro "1.IH") simp_all
    qed
    from span_body_text [OF ok "1.prems"(2) inner "1.prems"(3,4), where e = e and so = so] False
    show ?thesis
      by (subst render_span.simps) simp
  qed
qed

lemma render_roots_text:
  assumes ok: "nested_ok ws"
    and rs: "\<forall>r \<in> set (roots_of ws). r < length ws"
    and ch: "chain ws 0 (sort_key (\<lambda>i. offset (ws ! i)) (roots_of ws)) b"
  shows "nodes_text alternative_tags (render_roots tx so ws) = tx"
proof (cases "roots_of ws = []")
  case True
  then show ?thesis
    by (simp add: render_roots_def render_plain_segment_text [OF hi_not_alternative])
next
  case False
  have inner: "\<forall>c \<in> set (roots_of ws). nodes_text alternative_tags
                    (render_span tx so ws (offset (ws ! c)) (end_op (ws ! c)) (children_of ws c))
                  = py_slice tx (offset (ws ! c)) (end_op (ws ! c))"
  proof
    fix c assume "c \<in> set (roots_of ws)"
    with rs have lt: "c < length ws" by simp
    have "\<forall>d \<in> set (children_of ws c). d < length ws"
      using children_of_bounds by blast
    with nested_okD(1,2) [OF ok lt] ok
    show "nodes_text alternative_tags
                    (render_span tx so ws (offset (ws ! c)) (end_op (ws ! c)) (children_of ws c))
                  = py_slice tx (offset (ws ! c)) (end_op (ws ! c))"
      by (intro render_span_text) simp_all
  qed
  from span_body_text [OF ok rs inner ch, where e = "int (length tx)" and so = so] False
  show ?thesis by (simp add: render_roots_def Let_def)
qed

lemma unify_entities_text:
  assumes "''persName'' \<notin> set sk"
  shows "nodes_text sk (unify_entities ops nodes) = nodes_text sk nodes"
proof -
  have "nodes_text sk (fold (\<lambda>p nodes. wrap_for_person p cs nodes) ps nodes) = nodes_text sk nodes"
    for ps cs
  proof (induction ps arbitrary: nodes)
    case Nil
    show ?case by simp
  next
    case (Cons p ps)
    then show ?case
      by (simp add: wrap_for_person_once wrap_in_nodes_text [OF assms])
  qed
  then show ?thesis by (simp add: unify_entities_def)
qed

lemma tree_upto_inv:
  "k \<le> length ws \<Longrightarrow>
   (\<forall>p < length ws. distinct (fst (tree_upto ws k) ! p)
       \<and> (\<forall>c \<in> set (fst (tree_upto ws k) ! p). c < k \<and> find_parent ws c = Some p))
   \<and> distinct (snd (tree_upto ws k))
   \<and> (\<forall>r \<in> set (snd (tree_upto ws k)). r < k \<and> find_parent ws r = None)"
proof (induction k)
  case 0
  show ?case by (simp add: tree_upto_0)
next
  case (Suc k)
  obtain ch rs where st: "tree_upto ws k = (ch, rs)"
    by (cases "tree_upto ws k")
  have len: "length ch = length ws"
    using tree_upto_length [of ws k] st by simp
  from Suc have ih: "\<forall>p < length ws. distinct (ch ! p) \<and> (\<forall>c \<in> set (ch ! p). c < k \<and> find_parent ws c = Some p)"
    "distinct rs" "\<forall>r \<in> set rs. r < k \<and> find_parent ws r = None"
    by (simp_all add: st)
  show ?case
  proof (cases "find_parent ws k")
    case None
    then have eq: "tree_upto ws (Suc k) = (ch, rs @ [k])"
      by (simp add: tree_upto_Suc st tree_step_def)
    from ih None show ?thesis
      unfolding eq by (auto simp: less_Suc_eq)
  next
    case (Some q)
    then have eq: "tree_upto ws (Suc k) = (ch[q := ch ! q @ [k]], rs)"
      by (simp add: tree_upto_Suc st tree_step_def)
    have "distinct (ch[q := ch ! q @ [k]] ! p)
       \<and> (\<forall>c \<in> set (ch[q := ch ! q @ [k]] ! p). c < Suc k \<and> find_parent ws c = Some p)"
      if p: "p < length ws" for p
    proof (cases "p = q")
      case True
      with ih(1) p len Some show ?thesis by (auto simp: less_Suc_eq)
    next
      case False
      with ih(1) p show ?thesis by (auto simp: less_Suc_eq)
    qed
    with ih(2,3) show ?thesis
      unfolding eq by (auto simp: less_Suc_eq)
  qed
qed

lemma children_of_facts:
  shows "distinct (children_of ws p)"
    and "c \<in> set (children_of ws p) \<Longrightarrow> find_parent ws c = Some p"
  using tree_upto_inv [of "length ws" ws]
  by (auto simp: children_of_def Let_def build_tree_def tree_upto_length)

lemma roots_of_facts:
  shows "distinct (roots_of ws)"
    and "r \<in> set (roots_of ws) \<Longrightarrow> r < length ws \<and> find_parent ws r = None"
  using tree_upto_inv [of "length ws" ws]
  by (auto simp: roots_of_def build_tree_def)

definition laminar :: "span_op list \<Rightarrow> bool" where
  \<comment> \<open>any two spans are nested or do not overlap\<close>
  "laminar ws =
     (\<forall>a \<in> set ws. \<forall>b \<in> set ws.
        encloses a b \<or> encloses b a \<or> end_op a \<le> offset b \<or> end_op b \<le> offset a)"

lemma chain_intro:
  assumes "sorted (map (\<lambda>i. offset (ws ! i)) cs)" "distinct cs"
    and "\<forall>c \<in> set cs. a \<le> offset (ws ! c) \<and> offset (ws ! c) < end_op (ws ! c) \<and> end_op (ws ! c) \<le> b"
    and "\<forall>c \<in> set cs. \<forall>d \<in> set cs. c \<noteq> d \<longrightarrow>
           end_op (ws ! c) \<le> offset (ws ! d) \<or> end_op (ws ! d) \<le> offset (ws ! c)"
    and "a \<le> b"
  shows "chain ws a cs b"
  using assms
proof (induction cs arbitrary: a)
  case Nil
  then show ?case by simp
next
  case (Cons c cs)
  have "\<forall>d \<in> set cs. end_op (ws ! c) \<le> offset (ws ! d)"
  proof
    fix d assume d: "d \<in> set cs"
    with Cons.prems(2) have "c \<noteq> d" by auto
    with Cons.prems(4) d
    have "end_op (ws ! c) \<le> offset (ws ! d) \<or> end_op (ws ! d) \<le> offset (ws ! c)" by simp
    moreover from Cons.prems(1) d have "offset (ws ! c) \<le> offset (ws ! d)" by simp
    moreover from Cons.prems(3) d have "offset (ws ! d) < end_op (ws ! d)" by simp
    ultimately show "end_op (ws ! c) \<le> offset (ws ! d)" by linarith
  qed
  with Cons.prems have "chain ws (end_op (ws ! c)) cs b"
    by (intro Cons.IH) auto
  with Cons.prems(3) show ?case by simp
qed

lemma siblings_apart:
  assumes lam: "laminar (wrappers ops)"
    and c: "c < length (wrappers ops)" and d: "d < length (wrappers ops)" and ne: "c \<noteq> d"
    and par: "find_parent (wrappers ops) c = find_parent (wrappers ops) d"
  shows "end_op (wrappers ops ! c) \<le> offset (wrappers ops ! d)
       \<or> end_op (wrappers ops ! d) \<le> offset (wrappers ops ! c)"
proof -
  let ?ws = "wrappers ops"
  have main: "end_op (?ws ! i) \<le> offset (?ws ! j) \<or> end_op (?ws ! j) \<le> offset (?ws ! i)"
    if ij: "i < j" "j < length ?ws" and p: "find_parent ?ws i = find_parent ?ws j" for i j
  proof -
    have n1: "\<not> encloses (?ws ! i) (?ws ! j)"
    proof
      assume "encloses (?ws ! i) (?ws ! j)"
      from find_parent_exists [OF ij(1) this] obtain k
        where k: "find_parent ?ws j = Some k" "i \<le> k" by blast
      with p have "find_parent ?ws i = Some k" by simp
      from find_parent_less [OF this] k(2) show False by simp
    qed
    from wrappers_mono [of i j ops] ij
    have key: "sort_key_of (?ws ! i) \<le> sort_key_of (?ws ! j)" by simp
    have n2: "\<not> encloses (?ws ! j) (?ws ! i)"
    proof
      assume "encloses (?ws ! j) (?ws ! i)"
      with key have "encloses (?ws ! i) (?ws ! j)"
        by (auto simp: sort_key_of_def encloses_def)
      with n1 show False ..
    qed
    from ij have "?ws ! i \<in> set ?ws" "?ws ! j \<in> set ?ws" by simp_all
    with lam n1 n2 show ?thesis unfolding laminar_def by blast
  qed
  from ne consider "c < d" | "d < c" by linarith
  then show ?thesis
  proof cases
    case 1
    from main [OF 1 d par] show ?thesis .
  next
    case 2
    from main [OF 2 c par [symmetric]] show ?thesis by blast
  qed
qed

lemma laminar_nested_ok:
  assumes lam: "laminar (wrappers ops)"
    and b: "\<forall>w \<in> set (wrappers ops). 0 \<le> offset w \<and> offset w < end_op w"
    and reg: "\<forall>w \<in> set (wrappers ops). kind w = ''regularised'' \<longrightarrow>
        py_or (dict_get (attrs w) ''regularised'') (dict_get (attrs w) ''reg'') = None"
  shows "nested_ok (wrappers ops)"
  unfolding nested_ok_def
proof (intro allI impI)
  let ?ws = "wrappers ops"
  fix p assume p: "p < length ?ws"
  then have mem: "?ws ! p \<in> set ?ws" by simp
  let ?cs = "sort_key (\<lambda>i. offset (?ws ! i)) (children_of ?ws p)"
  have "chain ?ws (offset (?ws ! p)) ?cs (end_op (?ws ! p))"
  proof (rule chain_intro)
    show "sorted (map (\<lambda>i. offset (?ws ! i)) ?cs)" by simp
    show "distinct ?cs" by (simp add: children_of_facts(1))
    show "\<forall>c \<in> set ?cs. offset (?ws ! p) \<le> offset (?ws ! c) \<and> offset (?ws ! c) < end_op (?ws ! c)
            \<and> end_op (?ws ! c) \<le> end_op (?ws ! p)"
    proof
      fix c assume "c \<in> set ?cs"
      then have c: "c \<in> set (children_of ?ws p)" by simp
      from children_of_bounds [OF c] have "?ws ! c \<in> set ?ws" by simp
      with b have "offset (?ws ! c) < end_op (?ws ! c)" by simp
      moreover from find_parent_nearest(2) [OF children_of_facts(2) [OF c]]
      have "encloses (?ws ! p) (?ws ! c)" .
      ultimately show "offset (?ws ! p) \<le> offset (?ws ! c) \<and> offset (?ws ! c) < end_op (?ws ! c)
            \<and> end_op (?ws ! c) \<le> end_op (?ws ! p)"
        by (simp add: encloses_def)
    qed
    show "\<forall>c \<in> set ?cs. \<forall>d \<in> set ?cs. c \<noteq> d \<longrightarrow>
           end_op (?ws ! c) \<le> offset (?ws ! d) \<or> end_op (?ws ! d) \<le> offset (?ws ! c)"
    proof (intro ballI impI)
      fix c d assume "c \<in> set ?cs" "d \<in> set ?cs" and ne: "c \<noteq> d"
      then have cd: "c \<in> set (children_of ?ws p)" "d \<in> set (children_of ?ws p)" by simp_all
      from children_of_bounds [OF cd(1)] children_of_bounds [OF cd(2)]
        children_of_facts(2) [OF cd(1)] children_of_facts(2) [OF cd(2)]
      show "end_op (?ws ! c) \<le> offset (?ws ! d) \<or> end_op (?ws ! d) \<le> offset (?ws ! c)"
        by (intro siblings_apart [OF lam _ _ ne]) simp_all
    qed
    from b mem show "offset (?ws ! p) \<le> end_op (?ws ! p)" by auto
  qed
  with b reg mem
  show "0 \<le> offset (?ws ! p)
        \<and> chain ?ws (offset (?ws ! p)) ?cs (end_op (?ws ! p))
        \<and> (kind (?ws ! p) = ''regularised'' \<longrightarrow>
             py_or (dict_get (attrs (?ws ! p)) ''regularised'') (dict_get (attrs (?ws ! p)) ''reg'') = None)"
    by auto
qed

definition last_end :: "span_op list \<Rightarrow> int" where
  \<comment> \<open>a bound for the ends of all wrappers\<close>
  "last_end ws = foldr (\<lambda>w m. max (end_op w) m) ws 0"

lemma last_end_bounds: "0 \<le> last_end ws" "w \<in> set ws \<Longrightarrow> end_op w \<le> last_end ws"
  unfolding last_end_def by (induction ws) auto

lemma laminar_roots_chain:
  assumes lam: "laminar (wrappers ops)"
    and b: "\<forall>w \<in> set (wrappers ops). 0 \<le> offset w \<and> offset w < end_op w"
  shows "chain (wrappers ops) 0 (sort_key (\<lambda>i. offset (wrappers ops ! i)) (roots_of (wrappers ops)))
           (last_end (wrappers ops))"
proof (rule chain_intro)
  let ?ws = "wrappers ops"
  let ?rs = "sort_key (\<lambda>i. offset (?ws ! i)) (roots_of ?ws)"
  show "sorted (map (\<lambda>i. offset (?ws ! i)) ?rs)" by simp
  show "distinct ?rs" by (simp add: roots_of_facts(1))
  show "\<forall>c \<in> set ?rs. 0 \<le> offset (?ws ! c) \<and> offset (?ws ! c) < end_op (?ws ! c)
            \<and> end_op (?ws ! c) \<le> last_end ?ws"
  proof
    fix c assume "c \<in> set ?rs"
    then have "c \<in> set (roots_of ?ws)" by simp
    from roots_of_facts(2) [OF this] have "?ws ! c \<in> set ?ws" by simp
    with b last_end_bounds(2) show "0 \<le> offset (?ws ! c) \<and> offset (?ws ! c) < end_op (?ws ! c)
            \<and> end_op (?ws ! c) \<le> last_end ?ws" by simp
  qed
  show "\<forall>c \<in> set ?rs. \<forall>d \<in> set ?rs. c \<noteq> d \<longrightarrow>
           end_op (?ws ! c) \<le> offset (?ws ! d) \<or> end_op (?ws ! d) \<le> offset (?ws ! c)"
  proof (intro ballI impI)
    fix c d assume "c \<in> set ?rs" "d \<in> set ?rs" and ne: "c \<noteq> d"
    then have cd: "c \<in> set (roots_of ?ws)" "d \<in> set (roots_of ?ws)" by simp_all
    from roots_of_facts(2) [OF cd(1)] roots_of_facts(2) [OF cd(2)]
    show "end_op (?ws ! c) \<le> offset (?ws ! d) \<or> end_op (?ws ! d) \<le> offset (?ws ! c)"
      by (intro siblings_apart [OF lam _ _ ne]) simp_all
  qed
  show "0 \<le> last_end ?ws" by (rule last_end_bounds(1))
qed

lemma line_text_preserved:
  assumes "laminar (wrappers ops)"
    and "\<forall>w \<in> set (wrappers ops). 0 \<le> offset w \<and> offset w < end_op w"
    and "\<forall>w \<in> set (wrappers ops). kind w = ''regularised'' \<longrightarrow>
        py_or (dict_get (attrs w) ''regularised'') (dict_get (attrs w) ''reg'') = None"
  shows "nodes_text alternative_tags (build_inline_nodes_for_line tx ops) = tx"
proof -
  have "''persName'' \<notin> set alternative_tags" by (simp add: alternative_tags_def)
  from unify_entities_text [OF this]
    render_roots_text [OF laminar_nested_ok [OF assms] _ laminar_roots_chain [OF assms(1,2)]]
    roots_of_facts(2)
  show ?thesis by (simp add: build_inline_nodes_for_line_def)
qed

lemma expansion_is_second_reading:
  "build_inline_nodes_for_line ''ab''
     [\<lparr>kind = ''abbrev'', offset = 0, length_op = 2, end_op = 2, attrs = [(''expansion'', ''x'')]\<rparr>]
   = [El (Elem ''choice'' [] None None
            [Elem ''abbr'' [] (Some ''ab'') None [], Elem ''expan'' [] (Some ''x'') None []])]"
  by code_simp

lemma regularised_attribute_replaces_text:
  "nodes_text alternative_tags (build_inline_nodes_for_line ''ab''
     [\<lparr>kind = ''regularised'', offset = 0, length_op = 2, end_op = 2, attrs = [(''reg'', ''x'')]\<rparr>])
   = ''x''"
  by code_simp

lemma negative_offset_drops_text:
  "build_inline_nodes_for_line ''ab''
     [\<lparr>kind = ''num'', offset = - 1, length_op = 3, end_op = 2, attrs = []\<rparr>]
   = [El (Elem ''num'' [] (Some ''b'') None [])]"
  by code_simp

text \<open>
  C1, as the code has it. The text content of the output is read without the elements that
  hold a second reading or a part name copied from an attribute (\<open>expan\<close>, \<open>corr\<close>, \<open>orig\<close>,
  \<open>country\<close>, \<open>region\<close>, \<open>settlement\<close>, \<open>district\<close>). It equals the input text when the
  wrapper spans (positive length, any kind but \<open>textStyle\<close>) have \<open>0 \<le> offset < end\<close>,
  any two of them are nested or apart, and no \<open>regularised\<close> span carries its regularised
  form as an attribute. Style spans and spans of length zero are not restricted, and a
  wrapper may end after the text.
\<close>

theorem C1_text_preserved:
  assumes "laminar (wrappers ops)"
    and "\<forall>w \<in> set (wrappers ops). 0 \<le> offset w \<and> offset w < end_op w"
    and "\<forall>w \<in> set (wrappers ops). kind w = ''regularised'' \<longrightarrow>
        py_or (dict_get (attrs w) ''regularised'') (dict_get (attrs w) ''reg'') = None"
  shows "nodes_text alternative_tags (build_inline_nodes_for_line tx ops) = tx"
  using assms by (rule line_text_preserved)

theorem C1_text_preserved_witness:
  "nodes_text alternative_tags (build_inline_nodes_for_line ''Dr ab cd''
     [\<lparr>kind = ''abbrev'', offset = 0, length_op = 2, end_op = 2, attrs = [(''expansion'', ''Doctor'')]\<rparr>,
      \<lparr>kind = ''person'', offset = 0, length_op = 5, end_op = 5, attrs = []\<rparr>,
      \<lparr>kind = ''num'', offset = 4, length_op = 0, end_op = 4, attrs = []\<rparr>,
      \<lparr>kind = ''textStyle'', offset = 4, length_op = 3, end_op = 7, attrs = [(''bold'', ''true'')]\<rparr>])
   = ''Dr ab cd''"
proof -
  let ?ops = "[\<lparr>kind = ''abbrev'', offset = 0, length_op = 2, end_op = 2, attrs = [(''expansion'', ''Doctor'')]\<rparr>,
      \<lparr>kind = ''person'', offset = 0, length_op = 5, end_op = 5, attrs = []\<rparr>,
      \<lparr>kind = ''num'', offset = 4, length_op = 0, end_op = 4, attrs = []\<rparr>,
      \<lparr>kind = ''textStyle'', offset = 4, length_op = 3, end_op = 7, attrs = [(''bold'', ''true'')]\<rparr>]"
  have ws: "wrappers ?ops =
     [\<lparr>kind = ''person'', offset = 0, length_op = 5, end_op = 5, attrs = []\<rparr>,
      \<lparr>kind = ''abbrev'', offset = 0, length_op = 2, end_op = 2, attrs = [(''expansion'', ''Doctor'')]\<rparr>]"
    by code_simp
  have h1: "laminar (wrappers ?ops)"
    by (simp add: ws laminar_def encloses_def)
  have h2: "\<forall>w \<in> set (wrappers ?ops). 0 \<le> offset w \<and> offset w < end_op w"
    by (simp add: ws)
  have h3: "\<forall>w \<in> set (wrappers ?ops). kind w = ''regularised'' \<longrightarrow>
        py_or (dict_get (attrs w) ''regularised'') (dict_get (attrs w) ''reg'') = None"
    by (simp add: ws)
  from C1_text_preserved [OF h1 h2 h3] show ?thesis .
qed

text \<open>
  C1 as stated fails for two spans that cross: the second starts inside the first and ends
  after it, neither becomes the child of the other, and the characters they share are
  rendered twice.
\<close>

theorem C1_crossing_spans_counterexample:
  "build_inline_nodes_for_line ''abcd''
     [\<lparr>kind = ''num'', offset = 0, length_op = 3, end_op = 3, attrs = []\<rparr>,
      \<lparr>kind = ''num'', offset = 1, length_op = 3, end_op = 4, attrs = []\<rparr>]
   = [El (Elem ''num'' [] (Some ''abc'') None []), El (Elem ''num'' [] (Some ''bcd'') None [])]
   \<and> nodes_text []
       (build_inline_nodes_for_line ''abcd''
         [\<lparr>kind = ''num'', offset = 0, length_op = 3, end_op = 3, attrs = []\<rparr>,
          \<lparr>kind = ''num'', offset = 1, length_op = 3, end_op = 4, attrs = []\<rparr>])
     = ''abcbcd''"
  by code_simp

section \<open>Style spans after a wrapper\<close>

text \<open>
  C10. \<^verbatim>\<open>render_plain_segment\<close> selects the style spans of a segment by their offsets in the
  line and hands them to \<^verbatim>\<open>build_styled_nodes\<close> unchanged, together with the text of the
  segment alone. In a segment that starts after a wrapper the ranges are therefore read
  from the start of the segment. The bold span (2, 4) covers the two blanks that follow
  the \<open>num\<close> wrapper; inside the segment \<open>''  ''\<close> the range (2, 4) is empty, and the
  blanks are emitted as plain text, without a \<open>hi\<close> element.
\<close>

theorem C10_blank_after_wrapper:
  "list_all is_space (py_slice ''ab  '' 2 4)
   \<and> build_inline_nodes_for_line ''ab  ''
       [\<lparr>kind = ''num'', offset = 0, length_op = 2, end_op = 2, attrs = []\<rparr>,
        \<lparr>kind = ''textStyle'', offset = 2, length_op = 2, end_op = 4, attrs = [(''bold'', ''true'')]\<rparr>]
     = [El (Elem ''num'' [] (Some ''ab'') None []), Str ''  '']"
  by code_simp

section \<open>The children of the second part of a regularised pair\<close>

lemma elems_of_no_elem: "filter is_elem ns = [] \<Longrightarrow> elems_of ns = []"
  using elems_of_filter_elem [of ns] by simp

lemma regularised_explicit:
  assumes r: "py_or (dict_get (attrs w) ''regularised'') (dict_get (attrs w) ''reg'') = Some reg"
  shows "etext (kids (built_elem (regularised_element w wt inner)) ! 1) = Some reg"
    "attrib (kids (built_elem (regularised_element w wt inner)) ! 1) = []"
    "tail (kids (built_elem (regularised_element w wt inner)) ! 1) = None"
    "kids (kids (built_elem (regularised_element w wt inner)) ! 1)
       = kids (fst (snd (populate_target_with_nodes (new_elem ''tmp'') (filter is_elem inner))))"
    "kids_mt (kids (built_elem (regularised_element w wt inner)) ! 1)
       = map (\<lambda>k. set_tail k None) (elems_of inner)"
proof -
  obtain lead tmp trail
    where p: "populate_target_with_nodes (new_elem ''tmp'') (filter is_elem inner) = (lead, tmp, trail)"
    by (cases "populate_target_with_nodes (new_elem ''tmp'') (filter is_elem inner)")
  from populate_kids_mt [OF p]
  have km: "kids_mt tmp = map (\<lambda>k. set_tail k None) (elems_of inner)"
    by (simp add: kids_mt_def elems_of_filter_elem)
  have b: "kids (built_elem (regularised_element w wt inner)) ! 1
         = foldl append_kid (set_text (new_elem ''reg'') (Some reg)) (kids tmp)"
  proof (cases "filter is_elem inner = []")
    case True
    with p have "kids tmp = []"
      by (auto simp: populate_target_with_nodes_def Let_def take_lead_def take_trail_def
          split_trail_def truthy_def split: prod.splits if_splits option.splits)
    with True show ?thesis
      unfolding regularised_element_def Let_def r option.case filter_elem_filter
      by (simp add: choice_elem_def)
  next
    case False
    then show ?thesis
      unfolding regularised_element_def Let_def r option.case filter_elem_filter
      by (simp add: p choice_elem_def)
  qed
  show "etext (kids (built_elem (regularised_element w wt inner)) ! 1) = Some reg"
    "attrib (kids (built_elem (regularised_element w wt inner)) ! 1) = []"
    "tail (kids (built_elem (regularised_element w wt inner)) ! 1) = None"
    unfolding b by (simp_all add: set_text_new_elem)
  show "kids (kids (built_elem (regularised_element w wt inner)) ! 1)
       = kids (fst (snd (populate_target_with_nodes (new_elem ''tmp'') (filter is_elem inner))))"
    unfolding b by (simp add: p set_text_new_elem)
  with km show "kids_mt (kids (built_elem (regularised_element w wt inner)) ! 1)
       = map (\<lambda>k. set_tail k None) (elems_of inner)"
    by (simp add: kids_mt_def p)
qed

text \<open>
  C7, as the code has it. The wrapper built for a regularised span is a \<open>choice\<close> of an
  \<open>orig\<close> and a \<open>reg\<close> part. The first part is a literal: the \<open>original\<close> attribute, else the
  \<open>orig\<close> attribute, else the empty string; it never takes the rendered inner content.
  With an explicit \<open>regularised\<close> (else \<open>reg\<close>) attribute the second part has that value as
  its text, no attribute and no tail, and its children are the element nodes of the inner
  content, in their order (as \<^verbatim>\<open>populate_target_with_nodes\<close> leaves them, that is with the
  last tail trimmed); the plain text runs of the inner content play no role (the result is
  the one built from the element nodes alone). Without such an attribute the second part
  is populated from the rendered inner content.
\<close>

theorem C7_regularised_parts:
  assumes "kind (ws ! idx) = ''regularised''"
  shows
    "(let w = ws ! idx;
          el = built_elem (build_wrapper_element text ws idx inner_nodes);
          orig_attr = py_or (dict_get (attrs w) ''original'') (dict_get (attrs w) ''orig'');
          reg_attr = py_or (dict_get (attrs w) ''regularised'') (dict_get (attrs w) ''reg'')
      in tag el = ''choice'' \<and> map tag (kids el) = [''orig'', ''reg'']
         \<and> kids el ! 0 = Elem ''orig'' [] (Some (case orig_attr of Some x \<Rightarrow> x | None \<Rightarrow> [])) None []
         \<and> (case reg_attr of
              Some reg \<Rightarrow>
                etext (kids el ! 1) = Some reg \<and> attrib (kids el ! 1) = [] \<and> tail (kids el ! 1) = None
                \<and> kids (kids el ! 1)
                    = kids (fst (snd (populate_target_with_nodes (new_elem ''tmp'')
                                        (filter is_elem inner_nodes))))
                \<and> kids_mt (kids el ! 1) = map (\<lambda>k. set_tail k None) (elems_of inner_nodes)
                \<and> build_wrapper_element text ws idx inner_nodes
                    = build_wrapper_element text ws idx (filter is_elem inner_nodes)
            | None \<Rightarrow>
                kids el ! 1 = fst (snd (populate_target_with_nodes (new_elem ''reg'') inner_nodes))))"
proof -
  let ?w = "ws ! idx" and ?wt = "py_slice text (offset (ws ! idx)) (end_op (ws ! idx))"
  have bw: "build_wrapper_element text ws idx inner_nodes = regularised_element ?w ?wt inner_nodes"
    and bw': "build_wrapper_element text ws idx (filter is_elem inner_nodes)
              = regularised_element ?w ?wt (filter is_elem inner_nodes)"
    by (rule build_wrapper_regularised [OF assms])+
  show ?thesis
  proof (cases "py_or (dict_get (attrs ?w) ''regularised'') (dict_get (attrs ?w) ''reg'')")
    case None
    from regularised_element_parts [of ?w ?wt inner_nodes, unfolded Let_def None option.case]
    show ?thesis
      unfolding Let_def None option.case bw .
  next
    case (Some reg)
    from regularised_element_parts [of ?w ?wt inner_nodes, unfolded Let_def Some option.case]
      regularised_explicit [OF Some, of ?wt inner_nodes]
    show ?thesis
      unfolding Let_def Some option.case bw bw' by blast
  qed
qed

theorem C7_regularised_parts_witness:
  "kids (built_elem (build_wrapper_element ''ab''
      [\<lparr>kind = ''regularised'', offset = 0, length_op = 2, end_op = 2,
         attrs = [(''original'', ''x''), (''regularised'', ''y'')]\<rparr>] 0
      [Str ''a'', El (Elem ''hi'' [(''rend'', ''bold'')] (Some ''b'') None [])]))
   = [Elem ''orig'' [] (Some ''x'') None [],
      Elem ''reg'' [] (Some ''y'') None [Elem ''hi'' [(''rend'', ''bold'')] (Some ''b'') None []]]"
proof -
  let ?w = "\<lparr>kind = ''regularised'', offset = 0, length_op = 2, end_op = 2,
         attrs = [(''original'', ''x''), (''regularised'', ''y'')]\<rparr>"
  let ?inner = "[Str ''a'', El (Elem ''hi'' [(''rend'', ''bold'')] (Some ''b'') None [])]"
  let ?el = "built_elem (build_wrapper_element ''ab'' [?w] 0 ?inner)"
  have k: "kind ([?w] ! 0) = ''regularised''" by simp
  have o: "py_or (dict_get (attrs ([?w] ! 0)) ''original'') (dict_get (attrs ([?w] ! 0)) ''orig'') = Some ''x''"
    and r: "py_or (dict_get (attrs ([?w] ! 0)) ''regularised'') (dict_get (attrs ([?w] ! 0)) ''reg'') = Some ''y''"
    by (simp_all add: py_or_def dict_get_def)
  have pk: "kids (fst (snd (populate_target_with_nodes (new_elem ''tmp'') (filter is_elem ?inner))))
      = [Elem ''hi'' [(''rend'', ''bold'')] (Some ''b'') None []]"
    by code_simp
  from C7_regularised_parts [OF k, of "''ab''" ?inner, unfolded Let_def o r option.case pk]
  have t: "map tag (kids ?el) = [''orig'', ''reg'']"
    and 0: "kids ?el ! 0 = Elem ''orig'' [] (Some ''x'') None []"
    and 1: "etext (kids ?el ! 1) = Some ''y''" "attrib (kids ?el ! 1) = []" "tail (kids ?el ! 1) = None"
      "kids (kids ?el ! 1) = [Elem ''hi'' [(''rend'', ''bold'')] (Some ''b'') None []]"
    by blast+
  from t obtain a b where ab: "kids ?el = [a, b]" "tag a = ''orig''" "tag b = ''reg''"
    by (auto simp: map_eq_Cons_conv)
  with 0 1 show ?thesis
    by (cases b) simp
qed

text \<open>
  C7 as stated fails for a regularised span without an \<open>original\<close> attribute: the first
  part is empty, not the rendered inner content \<open>ab\<close>, which goes to the second part.
\<close>

theorem C7_missing_original_counterexample:
  "build_inline_nodes_for_line ''ab''
     [\<lparr>kind = ''regularised'', offset = 0, length_op = 2, end_op = 2, attrs = []\<rparr>]
   = [El (Elem ''choice'' [] None None
            [Elem ''orig'' [] (Some []) None [], Elem ''reg'' [] (Some ''ab'') None []])]"
  by code_simp

section \<open>Whitespace around a wrapper element\<close>

text \<open>
  Every branch of \<^verbatim>\<open>build_wrapper_element\<close> but one has the same shape: a fresh element is
  populated from the inner nodes, and the wrapper handed back is that element, or the
  \<open>choice\<close> that holds it, or (for a place) that element with the part names appended.
\<close>

definition content_target :: "span_op \<Rightarrow> elem" where
  \<comment> \<open>the fresh element that takes the inner nodes of a wrapper\<close>
  "content_target w =
     (let k = kind w
      in if k = ''abbrev'' then new_elem ''abbr''
         else if k = ''sic'' then new_elem ''sic''
         else if k = ''regularised'' then new_elem ''reg''
         else if k = ''num'' then
           set_if_present w ''value'' ''value'' (set_if_present w ''type'' ''type'' (new_elem ''num''))
         else if k = ''person'' then pers_elem w
         else if k = ''place'' then new_elem ''placeName''
         else if k = ''ref'' then
           set_if_present w ''target'' ''target'' (set_if_present w ''type'' ''type'' (new_elem ''ref''))
         else if k = ''unclear'' then set_if_present w ''reason'' ''reason'' (new_elem ''unclear'')
         else seg_elem w)"

definition wrap_content :: "span_op \<Rightarrow> elem \<Rightarrow> elem" where
  \<comment> \<open>the wrapper element, given the populated element\<close>
  "wrap_content w el =
     (let k = kind w
      in if k = ''abbrev'' then
           choice_elem el (set_text (new_elem ''expan'') (Some (dict_get_default (attrs w) ''expansion'' [])))
         else if k = ''sic'' then
           choice_elem el (set_text (new_elem ''corr'') (Some (dict_get_default (attrs w) ''correction'' [])))
         else if k = ''regularised'' then
           choice_elem
             (set_text (new_elem ''orig'')
                (Some (case py_or (dict_get (attrs w) ''original'') (dict_get (attrs w) ''orig'') of
                         Some x \<Rightarrow> x | None \<Rightarrow> dict_get_default (attrs w) ''original'' [])))
             el
         else if k = ''place'' then
           foldl (\<lambda>el attr. case dict_get (attrs w) attr of
                                 Some v \<Rightarrow> append_kid el (set_text (new_elem attr) (Some v))
                               | None \<Rightarrow> el)
             el [''country'', ''region'', ''settlement'', ''district'']
         else el)"

lemma content_target_fresh [simp]:
  "etext (content_target w) = None" "kids (content_target w) = []" "tail (content_target w) = None"
  by (simp_all add: content_target_def Let_def)

lemma build_wrapper_shape:
  assumes "\<not> (kind (ws ! idx) = ''regularised''
      \<and> py_or (dict_get (attrs (ws ! idx)) ''regularised'') (dict_get (attrs (ws ! idx)) ''reg'') \<noteq> None)"
  shows "build_wrapper_element tx ws idx inner
       = (case populate_target_with_nodes (content_target (ws ! idx)) inner of
            (lead, el, trail) \<Rightarrow>
              maybe_wrap_with_edge_whitespace (lead, el, trail) (wrap_content (ws ! idx) el))"
  using assms
  by (auto simp: build_wrapper_element_def Let_def content_target_def wrap_content_def
      simple_element_def witness_choice_element_def regularised_element_def place_element_def
      split: prod.splits)

lemma emit_built_maybe_wrap:
  "emit_built (maybe_wrap_with_edge_whitespace (lead, el, trail) wrap_el)
   = (if lead \<noteq> [] then [Str lead] else []) @ [El wrap_el] @ (if trail \<noteq> [] then [Str trail] else [])"
  by (simp add: emit_built_def maybe_wrap_with_edge_whitespace_def)

lemma regularised_attribute_drops_blanks:
  "build_inline_nodes_for_line '' ab ''
     [\<lparr>kind = ''regularised'', offset = 0, length_op = 4, end_op = 4,
       attrs = [(''regularised'', ''R'')]\<rparr>]
   = [El (Elem ''choice'' [] None None
            [Elem ''orig'' [] (Some []) None [], Elem ''reg'' [] (Some ''R'') None []])]"
  by code_simp

text \<open>
  C5, as the code has it. For every wrapper but a regularised span with an explicit
  \<open>regularised\<close> or \<open>reg\<close> attribute, the inner nodes are put into a fresh element by
  \<^verbatim>\<open>populate_target_with_nodes\<close>, which takes the whitespace at the start of the element's
  text and at the end of its last text (the tail of the last child, or the element's text
  when it has no child) out of the element. What is emitted for the wrapper is the leading
  run as a plain string when it is not empty, the wrapper element, and the trailing run as
  a plain string when it is not empty. The two runs consist of whitespace only; the
  populated element's text does not start with whitespace and its last text does not end
  with whitespace; and lead, content of the element and trail together are the text of the
  inner nodes. Whitespace inside the first or last child element is not touched. For a
  regularised span with an explicit attribute only the element nodes of the inner content
  are used: its plain text runs, blanks at the edges included, are not emitted at all.
\<close>

theorem C5_whitespace_hoisting:
  "(let w = ws ! idx
    in if kind w = ''regularised''
          \<and> py_or (dict_get (attrs w) ''regularised'') (dict_get (attrs w) ''reg'') \<noteq> None
       then build_wrapper_element tx ws idx inner
            = build_wrapper_element tx ws idx (filter is_elem inner)
       else (case populate_target_with_nodes (content_target w) inner of
               (lead, el, trail) \<Rightarrow>
                 emit_built (build_wrapper_element tx ws idx inner)
                 = (if lead \<noteq> [] then [Str lead] else []) @ [El (wrap_content w el)]
                   @ (if trail \<noteq> [] then [Str trail] else [])
                 \<and> list_all is_space lead \<and> list_all is_space trail
                 \<and> \<not> starts_with_space (or_empty (etext el))
                 \<and> \<not> ends_with_space (if kids el = [] then or_empty (etext el)
                                          else or_empty (tail (last (kids el))))
                 \<and> lead @ inner_text [] el @ trail = nodes_text [] inner))
   \<and> build_inline_nodes_for_line ''ab cd ef''
        [\<lparr>kind = ''num'', offset = 2, length_op = 4, end_op = 6, attrs = []\<rparr>]
      = [Str ''ab'', Str '' '', El (Elem ''num'' [] (Some ''cd'') None []), Str '' '', Str ''ef'']"
proof -
  let ?w = "ws ! idx"
  let ?x = "kind ?w = ''regularised''
          \<and> py_or (dict_get (attrs ?w) ''regularised'') (dict_get (attrs ?w) ''reg'') \<noteq> None"
  have 1: "build_wrapper_element tx ws idx inner
            = build_wrapper_element tx ws idx (filter is_elem inner)" if x: ?x
  proof -
    from x obtain reg
      where r: "py_or (dict_get (attrs ?w) ''regularised'') (dict_get (attrs ?w) ''reg'') = Some reg"
      by auto
    from x have k: "kind ?w = ''regularised''" by simp
    from regularised_element_elems [of ?w "py_slice tx (offset ?w) (end_op ?w)" inner]
    show ?thesis
      by (simp add: build_wrapper_regularised [OF k] r)
  qed
  have 2: "(case populate_target_with_nodes (content_target ?w) inner of
               (lead, el, trail) \<Rightarrow>
                 emit_built (build_wrapper_element tx ws idx inner)
                 = (if lead \<noteq> [] then [Str lead] else []) @ [El (wrap_content ?w el)]
                   @ (if trail \<noteq> [] then [Str trail] else [])
                 \<and> list_all is_space lead \<and> list_all is_space trail
                 \<and> \<not> starts_with_space (or_empty (etext el))
                 \<and> \<not> ends_with_space (if kids el = [] then or_empty (etext el)
                                          else or_empty (tail (last (kids el))))
                 \<and> lead @ inner_text [] el @ trail = nodes_text [] inner)" if x: "\<not> ?x"
  proof -
    obtain lead el trail
      where p: "populate_target_with_nodes (content_target ?w) inner = (lead, el, trail)"
      by (cases "populate_target_with_nodes (content_target ?w) inner")
    from populate_props(1-4) [OF p] populate_props(5) [OF p, of "[]"]
    show ?thesis
      by (simp add: p build_wrapper_shape [OF x] emit_built_maybe_wrap)
  qed
  show ?thesis
  proof (cases ?x)
    case True
    from 1 [OF True] hoisting_example show ?thesis
      unfolding Let_def if_P [OF True] by blast
  next
    case False
    from 2 [OF False] hoisting_example show ?thesis
      unfolding Let_def if_not_P [OF False] by blast
  qed
qed

theorem C5_whitespace_hoisting_witness:
  "emit_built (build_wrapper_element ''ab cd ef''
      [\<lparr>kind = ''num'', offset = 2, length_op = 4, end_op = 6, attrs = []\<rparr>] 0 [Str '' cd ''])
   = [Str '' '', El (Elem ''num'' [] (Some ''cd'') None []), Str '' '']"
proof -
  let ?w = "\<lparr>kind = ''num'', offset = 2, length_op = 4, end_op = 6, attrs = []\<rparr>"
  have k: "\<not> (kind ([?w] ! 0) = ''regularised''
          \<and> py_or (dict_get (attrs ([?w] ! 0)) ''regularised'') (dict_get (attrs ([?w] ! 0)) ''reg'') \<noteq> None)"
    by simp
  have p: "populate_target_with_nodes (content_target ([?w] ! 0)) [Str '' cd '']
         = ('' '', Elem ''num'' [] (Some ''cd'') None [], '' '')"
    by code_simp
  have v: "wrap_content ([?w] ! 0) (Elem ''num'' [] (Some ''cd'') None []) = Elem ''num'' [] (Some ''cd'') None []"
    by code_simp
  from C5_whitespace_hoisting [of "[?w]" 0 "''ab cd ef''" "[Str '' cd '']", unfolded Let_def if_not_P [OF k] p prod.case v]
  show ?thesis by simp
qed

text \<open>
  C5 as stated fails when the inner content starts with a styled element: the \<open>num\<close>
  wrapper over \<open>'' a''\<close>, bold over the same range, holds the \<open>hi\<close> element with its leading
  blank, and nothing is emitted outside.
\<close>

theorem C5_styled_edge_counterexample:
  "build_inline_nodes_for_line '' a''
     [\<lparr>kind = ''num'', offset = 0, length_op = 2, end_op = 2, attrs = []\<rparr>,
      \<lparr>kind = ''textStyle'', offset = 0, length_op = 2, end_op = 2, attrs = [(''bold'', ''true'')]\<rparr>]
   = [El (Elem ''num'' [] None None [Elem ''hi'' [(''rend'', ''bold'')] (Some '' a'') None []])]"
  by code_simp

section \<open>Punctuation under a style\<close>

lemma adjacent_in_sorted:
  fixes cs :: "int list"
  assumes "sorted cs" "distinct cs" "a \<in> set cs" "b \<in> set cs" "a < b"
    and "\<forall>c \<in> set cs. \<not> (a < c \<and> c < b)"
  shows "(a, b) \<in> set (zip cs (tl cs))"
  using assms
proof (induction cs)
  case Nil
  then show ?case by simp
next
  case (Cons c cs)
  from Cons.prems(3-5) have ne: "cs \<noteq> []" by auto
  then have z: "zip (c # cs) (tl (c # cs)) = (c, hd cs) # zip cs (tl cs)"
    by (cases cs) simp_all
  show ?case
  proof (cases "a = c")
    case True
    with Cons.prems(4,5) have b: "b \<in> set cs" by auto
    from ne have h: "hd cs \<in> set cs" by simp
    from Cons.prems(1) h have "c \<le> hd cs" by simp
    moreover from Cons.prems(2) h have "c \<noteq> hd cs" by auto
    ultimately have "a < hd cs" using True by simp
    moreover from Cons.prems(1) b ne have "hd cs \<le> b" by (cases cs) auto
    moreover from Cons.prems(6) h have "\<not> (a < hd cs \<and> hd cs < b)" by simp
    ultimately have "hd cs = b" by linarith
    with True z show ?thesis by simp
  next
    case False
    with Cons.prems(3) have a: "a \<in> set cs" by simp
    with Cons.prems(1) have "c \<le> a" by simp
    with Cons.prems(4,5) have b: "b \<in> set cs" by auto
    from Cons.prems(1,2,5,6) a b have "(a, b) \<in> set (zip cs (tl cs))"
      by (intro Cons.IH) simp_all
    with z show ?thesis by simp
  qed
qed

lemma seg_of_pair:
  "(s, e) \<in> set ps \<Longrightarrow> s \<noteq> e \<Longrightarrow>
   (s, e, py_slice tx s e, L s e)
     \<in> set (concat (map (\<lambda>(s, e). if s = e then [] else [(s, e, py_slice tx s e, L s e)]) ps))"
proof (induction ps)
  case Nil
  then show ?case by simp
next
  case (Cons p ps)
  show ?case
  proof (cases "p = (s, e)")
    case True
    with Cons.prems(2) show ?thesis by simp
  next
    case False
    with Cons.prems have "(s, e) \<in> set ps" by simp
    from Cons.IH [OF this Cons.prems(2)] show ?thesis by simp
  qed
qed

lemma uncut_range_segment:
  assumes r: "(a, b, lab) \<in> set ranges" and ab: "0 \<le> a" "a < b" "b \<le> int (length tx)"
    and uncut: "\<forall>(s, e, l) \<in> set ranges. \<not> (a < s \<and> s < b) \<and> \<not> (a < e \<and> e < b)"
  shows "(a, b, py_slice tx a b,
          remdups (map (\<lambda>(ss, ee, lab). lab)
            (filter (\<lambda>(ss, ee, lab). ss \<le> a \<and> b \<le> ee \<and> ss < ee) ranges)))
         \<in> set (slice_text_nodes tx ranges)"
proof -
  define n where "n = int (length tx)"
  define cps where "cps = concat (map (\<lambda>(s, e, lab). [max 0 (min n s), max 0 (min n e)]) ranges)"
  define cs where "cs = sort (remdups (0 # n # cps))"
  have set: "set cs = insert 0 (insert n (set cps))"
    by (simp only: cs_def set_sort set_remdups list.simps(15))
  from r ab have "a \<in> set cps" "b \<in> set cps"
    by (force simp: cps_def n_def)+
  with set have m: "a \<in> set cs" "b \<in> set cs" by simp_all
  have no: "\<forall>c \<in> set cs. \<not> (a < c \<and> c < b)"
  proof
    fix c assume "c \<in> set cs"
    with set consider "c = 0" | "c = n" | "c \<in> set cps" by auto
    then show "\<not> (a < c \<and> c < b)"
    proof cases
      case 1
      with ab show ?thesis by simp
    next
      case 2
      with ab show ?thesis by (simp add: n_def)
    next
      case 3
      then obtain s e l where "(s, e, l) \<in> set ranges" "c = max 0 (min n s) \<or> c = max 0 (min n e)"
        by (auto simp: cps_def)
      with uncut ab show ?thesis by (auto simp: n_def)
    qed
  qed
  have "sorted cs" "distinct cs" by (simp_all add: cs_def)
  from adjacent_in_sorted [OF this m ab(2) no] have "(a, b) \<in> set (zip cs (tl cs))" .
  from seg_of_pair [OF this, where tx = tx and L = "\<lambda>s e. remdups (map (\<lambda>(ss, ee, lab). lab)
            (filter (\<lambda>(ss, ee, lab). ss \<le> s \<and> e \<le> ee \<and> ss < ee) ranges))"] ab(2)
  show ?thesis
    unfolding slice_text_nodes_def Let_def n_def [symmetric] cps_def [symmetric] cs_def [symmetric]
    by simp
qed

lemma uncut_span_segment:
  assumes "op \<in> set style_ops" "rend_of op \<noteq> []"
    and "0 \<le> offset op" "offset op < end_op op" "end_op op \<le> int (length tx)"
    and "\<forall>r \<in> set style_ops. \<not> (offset op < offset r \<and> offset r < end_op op)
                             \<and> \<not> (offset op < end_op r \<and> end_op r < end_op op)"
  shows "\<exists>labels. labels \<noteq> []
           \<and> (offset op, end_op op, py_slice tx (offset op) (end_op op), labels)
               \<in> set (slice_text_nodes tx (style_ranges style_ops))"
proof -
  let ?rs = "style_ranges style_ops"
  let ?ls = "remdups (map (\<lambda>(ss, ee, lab). lab)
            (filter (\<lambda>(ss, ee, lab). ss \<le> offset op \<and> end_op op \<le> ee \<and> ss < ee) ?rs))"
  from assms(1,2) have r: "(offset op, end_op op, join '' '' (rend_of op)) \<in> set ?rs"
    by (force simp: style_ranges_def)
  have "\<forall>(s, e, l) \<in> set ?rs. \<not> (offset op < s \<and> s < end_op op) \<and> \<not> (offset op < e \<and> e < end_op op)"
    using assms(6) by (auto simp: style_ranges_def split: if_splits)
  from uncut_range_segment [OF r assms(3-5) this]
  have "(offset op, end_op op, py_slice tx (offset op) (end_op op), ?ls) \<in> set (slice_text_nodes tx ?rs)" .
  moreover from r assms(4) have "join '' '' (rend_of op) \<in> set ?ls" by force
  then have "?ls \<noteq> []" by (rule_tac notI) (simp only: list.set empty_iff)
  ultimately show ?thesis by blast
qed

lemma py_slice_of_prefix:
  assumes "0 \<le> a" "a \<le> b" "b \<le> e" "e \<le> int (length xs)"
  shows "py_slice (py_slice xs 0 e) a b = py_slice xs a b"
proof -
  from assms have l: "length (py_slice xs 0 e) = nat e"
    by (simp add: length_py_slice)
  from assms have "py_slice xs 0 e = take (nat e) xs"
    by (simp add: py_slice_inside)
  moreover have "take (nat (b - a)) (drop (nat a) (take (nat e) xs)) = take (nat (b - a)) (drop (nat a) xs)"
    using assms by (simp add: drop_take min_def)
  ultimately show ?thesis
    using assms l by (simp add: py_slice_inside)
qed

lemma sole_style_segment_plain:
  assumes only: "filter (\<lambda>s. 0 \<le> offset s \<and> end_op s \<le> e) style_ops = [op]"
    and "rend_of op \<noteq> []" "offset op < end_op op" "e \<le> int (length tx)"
    and "punct_only (py_slice tx (offset op) (end_op op))"
  shows "render_plain_segment tx style_ops 0 e = [Str (py_slice tx 0 e)]"
proof -
  from only have "op \<in> set (filter (\<lambda>s. 0 \<le> offset s \<and> end_op s \<le> e) style_ops)" by simp
  then have b: "0 \<le> offset op" "end_op op \<le> e" by simp_all
  let ?seg = "py_slice tx 0 e"
  from b assms(3,4) have len: "int (length ?seg) = e"
    by (simp add: length_py_slice)
  from b assms(3,4) have sl: "py_slice ?seg (offset op) (end_op op) = py_slice tx (offset op) (end_op op)"
    by (intro py_slice_of_prefix) simp_all
  from b assms(3) len have ne: "?seg \<noteq> []" by auto
  from sole_span_plain [of op ?seg "''tmp''"] assms(2,3,5) b len sl
  have "build_styled_nodes (new_elem ''tmp'') ?seg [op] = set_text (new_elem ''tmp'') (Some ?seg)"
    by simp
  with ne only show ?thesis
    by (simp add: render_plain_segment_def Let_def new_elem_def truthy_def or_empty_def)
qed

lemma segment_rule:
  assumes "(s, e, seg_text, labels) \<in> set (slice_text_nodes tx (style_ranges style_ops))"
  shows "punct_only seg_text \<longrightarrow> styled_segment parent (s, e, seg_text, labels) = append_text parent seg_text"
    and "labels \<noteq> [] \<and> \<not> punct_only seg_text \<longrightarrow>
         styled_segment parent (s, e, seg_text, labels) = append_kid parent (hi_elem labels seg_text)"
  by (simp_all add: styled_segment_def)




section \<open>Which choice the wrapping pass takes\<close>

fun has_choice :: "elem \<Rightarrow> bool" where
  \<comment> \<open>below the element there is a \<open>choice\<close> that can be reached without going through a
      \<open>persName\<close>\<close>
  "has_choice (Elem t a x tq ks) =
     (t \<noteq> ''persName''
      \<and> list_ex (\<lambda>k. tag k \<noteq> ''persName'' \<and> (tag k = ''choice'' \<or> has_choice k)) ks)"

definition candidate :: "elem \<Rightarrow> bool" where
  \<comment> \<open>an element at which the search stops: a \<open>choice\<close>, or an element that holds one\<close>
  "candidate k = (tag k \<noteq> ''persName'' \<and> (tag k = ''choice'' \<or> has_choice k))"

definition candidate_node :: "node \<Rightarrow> bool" where
  "candidate_node n = (case n of El e \<Rightarrow> candidate e | Str s \<Rightarrow> False)"

fun count_pers :: "elem \<Rightarrow> nat" where
  \<comment> \<open>the number of \<open>persName\<close> elements in a tree\<close>
  "count_pers (Elem t a x tq ks) = (if t = ''persName'' then 1 else 0) + sum_list (map count_pers ks)"

definition nodes_pers :: "node list \<Rightarrow> nat" where
  "nodes_pers ns = sum_list (map (\<lambda>n. case n of El e \<Rightarrow> count_pers e | Str s \<Rightarrow> 0) ns)"

lemma has_choice_sel: "has_choice e = (tag e \<noteq> ''persName'' \<and> list_ex candidate (kids e))"
  by (cases e) (simp add: candidate_def [abs_def])

lemma has_choice_not_pers: "has_choice e \<Longrightarrow> tag e \<noteq> ''persName''"
  by (simp add: has_choice_sel)

lemma count_pers_sel:
  "count_pers e = (if tag e = ''persName'' then 1 else 0) + sum_list (map count_pers (kids e))"
  by (cases e) simp

lemma wrap_in_children_found:
  assumes "\<And>k. k \<in> set ks \<Longrightarrow> fst (wrap_choice_in_persname_in_element k p) = has_choice k"
  shows "fst (wrap_choice_in_children ks p) = list_ex candidate ks"
  using assms
proof (induction ks)
  case Nil
  show ?case by simp
next
  case (Cons child rest)
  obtain w1 r1 where r: "wrap_choice_in_children rest p = (w1, r1)"
    by (cases "wrap_choice_in_children rest p")
  obtain w2 c2 where c: "wrap_choice_in_persname_in_element child p = (w2, c2)"
    by (cases "wrap_choice_in_persname_in_element child p")
  from Cons r have ih: "w1 = list_ex candidate rest" by simp
  from Cons.prems [of child] c have q: "w2 = has_choice child" by simp
  show ?case
    using ih q r c by (simp add: candidate_def [of child])
qed

lemma wrap_in_element_found: "fst (wrap_choice_in_persname_in_element e p) = has_choice e"
proof (induction e)
  case (Elem t a x tq ks)
  then have "fst (wrap_choice_in_children ks p) = list_ex candidate ks"
    using wrap_in_children_found [of ks p] by blast
  then show ?case
    by (auto simp: has_choice_sel split: prod.splits)
qed

lemma wrap_in_nodes_found:
  "fst (wrap_choice_in_nodes_list nodes p) = list_ex candidate_node nodes"
proof (induction nodes)
  case Nil
  show ?case by simp
next
  case (Cons n rest)
  obtain w1 r1 where r: "wrap_choice_in_nodes_list rest p = (w1, r1)"
    by (cases "wrap_choice_in_nodes_list rest p")
  with Cons have ih: "w1 = list_ex candidate_node rest" by simp
  show ?case
  proof (cases n)
    case (Str s)
    with r ih show ?thesis by (simp add: candidate_node_def [of "Str s"])
  next
    case (El e)
    obtain w2 c2 where c: "wrap_choice_in_persname_in_element e p = (w2, c2)"
      by (cases "wrap_choice_in_persname_in_element e p")
    with wrap_in_element_found [of e p] have "w2 = has_choice e" by simp
    with El r ih c show ?thesis
      by (simp add: candidate_node_def [of "El e"] candidate_def [of e])
  qed
qed

lemma wrap_in_children_first:
  assumes "\<not> list_ex candidate pre" "candidate k"
  shows "wrap_choice_in_children (pre @ k # post) p
       = (True, pre @ (if tag k = ''choice'' then set_kids (pers_elem p) [k]
                       else snd (wrap_choice_in_persname_in_element k p)) # post)"
  using assms(1)
proof (induction pre)
  case Nil
  obtain w2 c2 where c: "wrap_choice_in_persname_in_element k p = (w2, c2)"
    by (cases "wrap_choice_in_persname_in_element k p")
  with wrap_in_element_found [of k p] have "w2 = has_choice k" by simp
  with assms(2) c show ?case
    by (auto simp: candidate_def [of k])
next
  case (Cons x pre)
  from Cons.prems have nx: "\<not> candidate x" and np: "\<not> list_ex candidate pre" by simp_all
  obtain w2 c2 where c: "wrap_choice_in_persname_in_element x p = (w2, c2)"
    by (cases "wrap_choice_in_persname_in_element x p")
  with wrap_in_element_found [of x p] have w2: "w2 = has_choice x" by simp
  from Cons.IH [OF np] nx w2 c show ?case
    by (auto simp: candidate_def [of x] dest: has_choice_not_pers)
qed

lemma wrap_in_element_first:
  assumes "tag e \<noteq> ''persName''" "kids e = pre @ k # post" "\<not> list_ex candidate pre" "candidate k"
  shows "wrap_choice_in_persname_in_element e p
       = (True, set_kids e (pre @ (if tag k = ''choice'' then set_kids (pers_elem p) [k]
                                   else snd (wrap_choice_in_persname_in_element k p)) # post))"
  using assms(1,2) wrap_in_children_first [OF assms(3,4), of post p]
  by (cases e) simp

lemma wrap_in_nodes_first:
  assumes "\<not> list_ex candidate_node pre" "candidate n"
  shows "wrap_choice_in_nodes_list (pre @ El n # post) p
       = (True, pre @ El (if tag n = ''choice''
                          then set_tail (set_kids (pers_elem p) [set_tail n None]) (tail n)
                          else snd (wrap_choice_in_persname_in_element n p)) # post)"
  using assms(1)
proof (induction pre)
  case Nil
  obtain w2 c2 where c: "wrap_choice_in_persname_in_element n p = (w2, c2)"
    by (cases "wrap_choice_in_persname_in_element n p")
  with wrap_in_element_found [of n p] have "w2 = has_choice n" by simp
  with assms(2) c show ?case
    by (auto simp: candidate_def [of n])
next
  case (Cons x pre)
  from Cons.prems have nx: "\<not> candidate_node x" and np: "\<not> list_ex candidate_node pre" by simp_all
  show ?case
  proof (cases x)
    case (Str s)
    with Cons.IH [OF np] show ?thesis by simp
  next
    case (El e)
    obtain w2 c2 where c: "wrap_choice_in_persname_in_element e p = (w2, c2)"
      by (cases "wrap_choice_in_persname_in_element e p")
    with wrap_in_element_found [of e p] have w2: "w2 = has_choice e" by simp
    from Cons.IH [OF np] nx w2 c El show ?thesis
      by (auto simp: candidate_node_def [of "El e"] candidate_def [of e] dest: has_choice_not_pers)
  qed
qed

lemma count_pers_set_tail [simp]: "count_pers (set_tail e x) = count_pers e"
  by (simp add: count_pers_sel)

lemma wrap_in_children_count:
  assumes "\<And>k. k \<in> set ks \<Longrightarrow>
      count_pers (snd (wrap_choice_in_persname_in_element k p))
      = count_pers k + (if fst (wrap_choice_in_persname_in_element k p) then 1 else 0)"
  shows "sum_list (map count_pers (snd (wrap_choice_in_children ks p)))
       = sum_list (map count_pers ks) + (if fst (wrap_choice_in_children ks p) then 1 else 0)"
  using assms
proof (induction ks)
  case Nil
  show ?case by simp
next
  case (Cons child rest)
  obtain w1 r1 where r: "wrap_choice_in_children rest p = (w1, r1)"
    by (cases "wrap_choice_in_children rest p")
  obtain w2 c2 where c: "wrap_choice_in_persname_in_element child p = (w2, c2)"
    by (cases "wrap_choice_in_persname_in_element child p")
  from Cons r have ih: "sum_list (map count_pers r1)
      = sum_list (map count_pers rest) + (if w1 then 1 else 0)" by simp
  from Cons.prems [of child] c
  have q: "count_pers c2 = count_pers child + (if w2 then 1 else 0)" by simp
  show ?case
    using ih q r c
    by (simp add: count_pers_sel [of "set_kids (pers_elem p) [child]"])
qed

lemma wrap_in_element_count:
  "count_pers (snd (wrap_choice_in_persname_in_element e p))
   = count_pers e + (if fst (wrap_choice_in_persname_in_element e p) then 1 else 0)"
proof (induction e)
  case (Elem t a x tq ks)
  then have "sum_list (map count_pers (snd (wrap_choice_in_children ks p)))
       = sum_list (map count_pers ks) + (if fst (wrap_choice_in_children ks p) then 1 else 0)"
    using wrap_in_children_count [of ks p] by blast
  then show ?case
    by (auto split: prod.splits)
qed

lemma wrap_in_nodes_count:
  "nodes_pers (snd (wrap_choice_in_nodes_list nodes p))
   = nodes_pers nodes + (if fst (wrap_choice_in_nodes_list nodes p) then 1 else 0)"
proof (induction nodes)
  case Nil
  show ?case by (simp add: nodes_pers_def)
next
  case (Cons n rest)
  obtain w1 r1 where r: "wrap_choice_in_nodes_list rest p = (w1, r1)"
    by (cases "wrap_choice_in_nodes_list rest p")
  with Cons have ih: "nodes_pers r1 = nodes_pers rest + (if w1 then 1 else 0)" by simp
  show ?case
  proof (cases n)
    case (Str s)
    with r ih show ?thesis by (simp add: nodes_pers_def)
  next
    case (El e)
    obtain w2 c2 where c: "wrap_choice_in_persname_in_element e p = (w2, c2)"
      by (cases "wrap_choice_in_persname_in_element e p")
    with wrap_in_element_count [of e p]
    have q: "count_pers c2 = count_pers e + (if w2 then 1 else 0)" by simp
    show ?thesis
      using El r ih c q
      by (simp add: nodes_pers_def
            count_pers_sel [of "set_kids (pers_elem p) [set_tail e None]"])
  qed
qed

lemma pers_elem_closed:
  "pers_elem p
   = Elem ''persName''
       ((case dict_get (attrs p) ''type'' of Some v \<Rightarrow> [(''type'', v)] | None \<Rightarrow> [])
        @ (case dict_get (attrs p) ''wikiData'' of
             Some q \<Rightarrow> [(''ref'', ''https://www.wikidata.org/wiki/'' @ q)] | None \<Rightarrow> [])
        @ (case dict_get (attrs p) ''firstname'' of Some v \<Rightarrow> [(''firstname'', v)] | None \<Rightarrow> [])
        @ (if dict_get (attrs p) ''continued'' = Some ''true'' then [(''continued'', ''true'')] else []))
       None None []"
  by (simp add: pers_elem_def set_if_present_def Let_def new_elem_def split: option.splits)




end
